theory Spec2Isabelle
  imports Complex_Main "HOL-Library.Word" "HOL-Library.Log_Nat" "HOL-Library.Monad_Syntax"
begin

unbundle bit_operations_syntax

section \<open>Shared data\<close>

type_synonym byte = "8 word"

text \<open>
  Exceptions of the JavaScript runtime and of the code. \<open>Error msg\<close> is
  \<^verbatim>\<open>new Error(msg)\<close>; \<open>TypeError\<close> is what a call on \<^verbatim>\<open>null\<close> throws; \<open>Thrown tag\<close> is an
  exception raised by an external collaborator (recorder, file system, transport, tool
  executor).
\<close>

datatype js_error = RangeError | InvalidCharacterError | TypeError | Error string | Thrown string

section \<open>WAV container framing (native playback, \<^verbatim>\<open>createWavHeader\<close>)\<close>

definition OUTPUT_SAMPLE_RATE :: nat where
  "OUTPUT_SAMPLE_RATE = 24000"

definition BITS_PER_SAMPLE :: nat where
  "BITS_PER_SAMPLE = 16"

definition NUM_CHANNELS :: nat where
  "NUM_CHANNELS = 1"

text \<open>The four bytes of an unsigned 32-bit value, in the byte order the \<^verbatim>\<open>DataView\<close> call asks for.\<close>

definition bytes_of_u32 :: "32 word \<Rightarrow> bool \<Rightarrow> byte list" where
  "bytes_of_u32 w littleEndian =
     (let le = [ucast w, ucast (drop_bit 8 w), ucast (drop_bit 16 w), ucast (drop_bit 24 w)]
      in if littleEndian then le else rev le)"

definition bytes_of_u16 :: "16 word \<Rightarrow> bool \<Rightarrow> byte list" where
  "bytes_of_u16 w littleEndian =
     (let le = [ucast w, ucast (drop_bit 8 w)]
      in if littleEndian then le else rev le)"

text \<open>A write through a \<^verbatim>\<open>DataView\<close>: outside the buffer it throws \<^verbatim>\<open>RangeError\<close> (\<open>None\<close>).\<close>

definition write_bytes :: "nat \<Rightarrow> byte list \<Rightarrow> byte list \<Rightarrow> byte list option" where
  "write_bytes off bs buf =
     (if off + length bs \<le> length buf
      then Some (take off buf @ bs @ drop (off + length bs) buf)
      else None)"

text \<open>\<^verbatim>\<open>view.setUint32(off, v, littleEndian)\<close>: the value is reduced modulo \<open>2^32\<close> (ToUint32).\<close>

definition setUint32 :: "nat \<Rightarrow> nat \<Rightarrow> bool \<Rightarrow> byte list \<Rightarrow> byte list option" where
  "setUint32 off v littleEndian buf = write_bytes off (bytes_of_u32 (of_nat v) littleEndian) buf"

definition setUint16 :: "nat \<Rightarrow> nat \<Rightarrow> bool \<Rightarrow> byte list \<Rightarrow> byte list option" where
  "setUint16 off v littleEndian buf = write_bytes off (bytes_of_u16 (of_nat v) littleEndian) buf"

text \<open>\<^verbatim>\<open>view.getUint32(off, littleEndian)\<close>, used to read a declared size field back.\<close>

definition getUint32 :: "nat \<Rightarrow> bool \<Rightarrow> byte list \<Rightarrow> nat option" where
  "getUint32 off littleEndian buf =
     (if off + 4 \<le> length buf
      then (let bs = take 4 (drop off buf); le = (if littleEndian then bs else rev bs)
            in Some (unat (le ! 0) + 256 * unat (le ! 1) + 65536 * unat (le ! 2)
                     + 16777216 * unat (le ! 3)))
      else None)"

definition createWavHeader :: "nat \<Rightarrow> byte list option" where
  "createWavHeader dataLength =
     (let header = replicate 44 (0::byte);
          byteRate = OUTPUT_SAMPLE_RATE * NUM_CHANNELS * (BITS_PER_SAMPLE div 8);
          blockAlign = NUM_CHANNELS * (BITS_PER_SAMPLE div 8)
      in Some header
         \<bind> setUint32 0 0x52494646 False
         \<bind> setUint32 4 (36 + dataLength) True
         \<bind> setUint32 8 0x57415645 False
         \<bind> setUint32 12 0x666D7420 False
         \<bind> setUint32 16 16 True
         \<bind> setUint16 20 1 True
         \<bind> setUint16 22 NUM_CHANNELS True
         \<bind> setUint32 24 OUTPUT_SAMPLE_RATE True
         \<bind> setUint32 28 byteRate True
         \<bind> setUint16 32 blockAlign True
         \<bind> setUint16 34 BITS_PER_SAMPLE True
         \<bind> setUint32 36 0x64617461 False
         \<bind> setUint32 40 dataLength True)"

text \<open>The container built in \<^verbatim>\<open>playNext\<close>: the header followed by the PCM payload.\<close>

definition wavBytes :: "byte list \<Rightarrow> byte list option" where
  "wavBytes pcmBytes =
     (case createWavHeader (length pcmBytes) of
        None \<Rightarrow> None
      | Some wavHeader \<Rightarrow> Some (wavHeader @ pcmBytes))"

section \<open>Voice session (\<^verbatim>\<open>GeminiVoiceSessionImpl\<close>)\<close>

subsection \<open>The published status and turn mode\<close>

datatype realtime_status = S_idle | S_connecting | S_connected | S_error | S_disconnected

datatype realtime_mode = M_idle | M_speaking

text \<open>Argument mapping of a tool call (\<^verbatim>\<open>Record<string, unknown>\<close>), as an association list.\<close>

type_synonym tool_args = "(string \<times> string) list"

text \<open>An entry of \<^verbatim>\<open>functionResponses\<close>: \<^verbatim>\<open>{ id, name, response: { result } }\<close>.\<close>

record function_response =
  resp_id :: string
  resp_name :: string
  resp_result :: string

text \<open>
  The state the session code reads and writes: the two published fields of the store and
  whether a \<open>speaking\<close> transition of the message being handled is still sticky, the
  three private fields of \<^verbatim>\<open>GeminiVoiceSessionImpl\<close> (whether each is non-null), and
  the calls made on the collaborators, in order: the turn-mode requests handed to the store,
  the chunks handed to \<^verbatim>\<open>audioPlayer.play\<close>, the texts of \<^verbatim>\<open>sendClientContent\<close>, the
  tool executors invoked, the batches of \<^verbatim>\<open>sendToolResponse\<close>, and whether the player
  and the capture (the microphone) are started.
\<close>

record voice_state =
  realtimeStatus :: realtime_status
  realtimeMode :: realtime_mode
  speakingSticky :: bool
  modeRequests :: "(realtime_mode \<times> bool) list"
  session :: bool
  audioCapture :: bool
  audioPlayer :: bool
  playerStarted :: bool
  captureStarted :: bool
  played :: "string list"
  clientContent :: "string list"
  toolInvocations :: "(string \<times> tool_args) list"
  toolResponses :: "function_response list list"

text \<open>
  Modelled from the spec: \<^verbatim>\<open>storage.getState().setRealtimeStatus\<close> of the application
  store, which is not among the sources. Section 6 of the spec gives it as the status
  publisher's \<^verbatim>\<open>setStatus\<close>: the core only writes the status.
\<close>

definition setRealtimeStatus :: "realtime_status \<Rightarrow> voice_state \<Rightarrow> voice_state" where
  "setRealtimeStatus st s = s\<lparr>realtimeStatus := st\<rparr>"

text \<open>
  Modelled from the spec: \<^verbatim>\<open>storage.getState().setRealtimeMode(mode, force?)\<close> of the
  application store, which is not among the sources. Section 6 of the spec gives it as the
  status publisher's \<^verbatim>\<open>setTurnMode(mode, forced)\<close>, and section 4.5 gives its sticky
  semantics: a forced request sets the turn at once and bypasses the stickiness; an
  unforced \<open>speaking\<close> sets the turn to \<open>speaking\<close>, which then sticks for the rest of the
  message; an unforced \<open>idle\<close> sets the turn to \<open>idle\<close> unless a \<open>speaking\<close> transition of
  the same message is sticking, which it must not override. Each request is recorded, with
  its flag, in \<open>modeRequests\<close>, whether or not it changes the turn.
\<close>

definition setRealtimeMode :: "realtime_mode \<Rightarrow> bool \<Rightarrow> voice_state \<Rightarrow> voice_state" where
  "setRealtimeMode m force s =
     (let s1 = s\<lparr>modeRequests := modeRequests s @ [(m, force)]\<rparr> in
      if force then s1\<lparr>realtimeMode := m, speakingSticky := False\<rparr>
      else (case m of
              M_speaking \<Rightarrow> s1\<lparr>realtimeMode := M_speaking, speakingSticky := True\<rparr>
            | M_idle \<Rightarrow> if speakingSticky s then s1 else s1\<lparr>realtimeMode := M_idle\<rparr>))"

text \<open>
  Modelled from the spec: the end of the stickiness, which is also the store's. Section 4.5
  of the spec limits it to one message (the turn-completion signal of a later message does
  set the turn to \<open>idle\<close>), so it is over when the handling of the message is over.
\<close>

definition end_of_message :: "voice_state \<Rightarrow> voice_state" where
  "end_of_message s = s\<lparr>speakingSticky := False\<rparr>"

subsection \<open>JavaScript truthiness and \<^verbatim>\<open>String.prototype.includes\<close>\<close>

text \<open>An optional string is truthy when it is defined and not empty.\<close>

definition truthy :: "string option \<Rightarrow> bool" where
  "truthy v = (case v of None \<Rightarrow> False | Some str \<Rightarrow> str \<noteq> [])"

definition starts_with :: "string \<Rightarrow> string \<Rightarrow> bool" where
  "starts_with str p = (take (length p) str = p)"

fun str_includes :: "string \<Rightarrow> string \<Rightarrow> bool" where
  "str_includes [] sub = (sub = [])"
| "str_includes (c # cs) sub = (starts_with (c # cs) sub \<or> str_includes cs sub)"

subsection \<open>Inbound server messages\<close>

record inline_data =
  inline_bytes :: "string option"
  mimeType :: "string option"

record part =
  inlineData :: "inline_data option"

record model_turn =
  parts :: "part list option"

record server_content =
  modelTurn :: "model_turn option"
  turnComplete :: bool

record function_call =
  call_id :: "string option"
  call_name :: "string option"
  call_args :: "tool_args option"

record tool_call =
  functionCalls :: "function_call list option"

record server_message =
  serverContent :: "server_content option"
  toolCall :: "tool_call option"

text \<open>
  The host's tool executors (\<^verbatim>\<open>realtimeClientTools\<close>, not among the sources) are
  parameters: each maps the argument mapping to the awaited result string, or to the
  exception its promise rejects with.
\<close>

record client_tools =
  messageClaudeCode :: "tool_args \<Rightarrow> js_error + string"
  processPermissionRequest :: "tool_args \<Rightarrow> js_error + string"

text \<open>The condition of the \<^verbatim>\<open>if\<close> inside the loop over the parts.\<close>

definition is_audio_part :: "part \<Rightarrow> bool" where
  "is_audio_part p =
     (case inlineData p of
        None \<Rightarrow> False
      | Some d \<Rightarrow> truthy (inline_bytes d) \<and>
          (case mimeType d of None \<Rightarrow> False | Some m \<Rightarrow> str_includes m ''audio''))"

text \<open>\<^verbatim>\<open>this.audioPlayer?.play(data)\<close>: a call only when the player field is set.\<close>

definition player_play :: "string \<Rightarrow> voice_state \<Rightarrow> voice_state" where
  "player_play chunk s = (if audioPlayer s then s\<lparr>played := played s @ [chunk]\<rparr> else s)"

fun handle_parts :: "part list \<Rightarrow> voice_state \<Rightarrow> voice_state" where
  "handle_parts [] s = s"
| "handle_parts (p # ps) s =
     (if is_audio_part p
      then (case inlineData p of
              None \<Rightarrow> handle_parts ps s
            | Some d \<Rightarrow>
                (case inline_bytes d of
                   None \<Rightarrow> handle_parts ps s
                 | Some chunk \<Rightarrow>
                     handle_parts ps (setRealtimeMode M_speaking False (player_play chunk s))))
      else handle_parts ps s)"

text \<open>The body of the loop of \<^verbatim>\<open>handleToolCalls\<close> for a call that has a name and an id.\<close>

definition run_tool :: "client_tools \<Rightarrow> string \<Rightarrow> tool_args \<Rightarrow> js_error + string" where
  "run_tool tools name a =
     (if name = ''messageClaudeCode'' then messageClaudeCode tools a
      else if name = ''processPermissionRequest'' then processPermissionRequest tools a
      else Inr ''error (unknown tool)'')"

definition is_known_tool :: "string \<Rightarrow> bool" where
  "is_known_tool name = (name = ''messageClaudeCode'' \<or> name = ''processPermissionRequest'')"

definition has_name_and_id :: "function_call \<Rightarrow> bool" where
  "has_name_and_id call = (truthy (call_name call) \<and> truthy (call_id call))"

definition args_or_empty :: "function_call \<Rightarrow> tool_args" where
  "args_or_empty call = (case call_args call of None \<Rightarrow> [] | Some a \<Rightarrow> a)"

text \<open>
  The \<^verbatim>\<open>for\<close> loop of \<^verbatim>\<open>handleToolCalls\<close>. The result is \<open>Inl e\<close> when an awaited
  executor rejects with \<open>e\<close>: nothing catches it, so the loop is left at that call. An
  executor that is invoked is recorded in \<open>toolInvocations\<close>.
\<close>

fun tool_loop ::
  "client_tools \<Rightarrow> function_call list \<Rightarrow> function_response list \<Rightarrow> voice_state
     \<Rightarrow> (js_error + function_response list) \<times> voice_state" where
  "tool_loop tools [] responses s = (Inr responses, s)"
| "tool_loop tools (call # rest) responses s =
     (if \<not> has_name_and_id call then tool_loop tools rest responses s
      else
        (case (call_name call, call_id call) of
           (Some name, Some cid) \<Rightarrow>
             (let s1 = (if is_known_tool name
                        then s\<lparr>toolInvocations := toolInvocations s @ [(name, args_or_empty call)]\<rparr>
                        else s)
              in case run_tool tools name (args_or_empty call) of
                   Inl e \<Rightarrow> (Inl e, s1)
                 | Inr result \<Rightarrow>
                     tool_loop tools rest
                       (responses @ [\<lparr>resp_id = cid, resp_name = name, resp_result = result\<rparr>]) s1)
         | _ \<Rightarrow> tool_loop tools rest responses s))"

text \<open>
  \<^verbatim>\<open>handleToolCalls\<close>: \<open>Some e\<close> is the rejection of its promise. The batch is sent only
  when it is not empty and the connection field is set.
\<close>

definition handleToolCalls ::
  "client_tools \<Rightarrow> function_call list \<Rightarrow> voice_state \<Rightarrow> js_error option \<times> voice_state" where
  "handleToolCalls tools calls s =
     (case tool_loop tools calls [] s of
        (Inl e, s1) \<Rightarrow> (Some e, s1)
      | (Inr responses, s1) \<Rightarrow>
          (if responses \<noteq> [] \<and> session s1
           then (None, s1\<lparr>toolResponses := toolResponses s1 @ [responses]\<rparr>)
           else (None, s1)))"

text \<open>
  \<^verbatim>\<open>handleServerMessage\<close>. The promise of \<^verbatim>\<open>handleToolCalls\<close> is not awaited: a
  rejection is lost and the handler returns normally. Messages are handled one at a time,
  and the tool calls of a message are run to their end here, before the next message.
\<close>

definition handleServerMessage ::
  "client_tools \<Rightarrow> server_message \<Rightarrow> voice_state \<Rightarrow> voice_state" where
  "handleServerMessage tools message s =
     (let msg_parts = (case serverContent message of
                         None \<Rightarrow> None
                       | Some sc \<Rightarrow> (case modelTurn sc of None \<Rightarrow> None | Some mt \<Rightarrow> parts mt));
          s1 = (case msg_parts of None \<Rightarrow> s | Some ps \<Rightarrow> handle_parts ps s);
          s2 = (case serverContent message of
                  None \<Rightarrow> s1
                | Some sc \<Rightarrow> if turnComplete sc then setRealtimeMode M_idle False s1 else s1)
      in case toolCall message of
           None \<Rightarrow> s2
         | Some tc \<Rightarrow>
             (case functionCalls tc of
                None \<Rightarrow> s2
              | Some calls \<Rightarrow> snd (handleToolCalls tools calls s2)))"

text \<open>
  Modelled from the spec: one message, from its arrival to the end of its handling. The
  \<^verbatim>\<open>onmessage\<close> callback given to the transport (l.122-124) only calls the handler; that
  the stickiness ends when the callback returns is the store's part (section 4.5 of the
  spec), and nothing of the handler depends on it.
\<close>

definition onmessage :: "client_tools \<Rightarrow> server_message \<Rightarrow> voice_state \<Rightarrow> voice_state" where
  "onmessage tools message s = end_of_message (handleServerMessage tools message s)"

subsection \<open>Session lifecycle\<close>

text \<open>
  What the collaborators answer during one \<^verbatim>\<open>startSession\<close>: the configured API key of
  the settings, and for each awaited call either success (\<open>None\<close>) or the exception thrown.
  A successful \<^verbatim>\<open>ai.live.connect\<close> has opened the connection, so the transport has
  invoked \<^verbatim>\<open>onopen\<close> before the call returns.
\<close>

record start_env =
  geminiApiKey :: "string option"
  playerStart :: "js_error option"
  captureStart :: "js_error option"
  liveConnect :: "js_error option"

record voice_session_config =
  sessionId :: string
  initialContext :: "string option"

definition onopen :: "voice_state \<Rightarrow> voice_state" where
  "onopen s = setRealtimeMode M_idle False (setRealtimeStatus S_connected s)"

definition onerror :: "voice_state \<Rightarrow> voice_state" where
  "onerror s = setRealtimeStatus S_error s"

definition onclose :: "voice_state \<Rightarrow> voice_state" where
  "onclose s = setRealtimeMode M_idle True (setRealtimeStatus S_disconnected s)"

definition sendClientContent :: "string \<Rightarrow> voice_state \<Rightarrow> voice_state" where
  "sendClientContent txt s = s\<lparr>clientContent := clientContent s @ [txt]\<rparr>"

text \<open>\<^verbatim>\<open>audioPlayer.stop()\<close> and \<^verbatim>\<open>audioCapture.stop()\<close>, as seen by the session.\<close>

definition player_stop :: "voice_state \<Rightarrow> voice_state" where
  "player_stop s = s\<lparr>playerStarted := False\<rparr>"

definition capture_stop :: "voice_state \<Rightarrow> voice_state" where
  "capture_stop s = s\<lparr>captureStarted := False\<rparr>"

text \<open>\<^verbatim>\<open>startSession\<close>: \<open>Some e\<close> is the exception the call rejects with.\<close>

definition startSession ::
  "start_env \<Rightarrow> voice_session_config \<Rightarrow> voice_state \<Rightarrow> js_error option \<times> voice_state" where
  "startSession env config s =
     (let s1 = setRealtimeStatus S_connecting s in
      if \<not> truthy (geminiApiKey env)
      then (Some (Error ''Gemini API key not configured''), setRealtimeStatus S_error s1)
      else
        (let s2 = s1\<lparr>audioPlayer := True\<rparr> in
         case playerStart env of
           Some e \<Rightarrow> (Some e, s2)
         | None \<Rightarrow>
             (let s3 = s2\<lparr>playerStarted := True, audioCapture := True\<rparr> in
              case captureStart env of
                Some e \<Rightarrow> (Some e, setRealtimeStatus S_error (player_stop s3))
              | None \<Rightarrow>
                  (let s4 = s3\<lparr>captureStarted := True\<rparr> in
                   case liveConnect env of
                     Some e \<Rightarrow>
                       (Some e, setRealtimeStatus S_error (player_stop (capture_stop s4)))
                   | None \<Rightarrow>
                       (let s5 = (onopen s4)\<lparr>session := True\<rparr> in
                        case initialContext config of
                          None \<Rightarrow> (None, s5)
                        | Some ctx \<Rightarrow>
                            (if ctx = [] then (None, s5)
                             else (None, sendClientContent (''[CONTEXT UPDATE] '' @ ctx) s5)))))))"


definition sendTextMessage :: "string \<Rightarrow> voice_state \<Rightarrow> voice_state" where
  "sendTextMessage message s = (if \<not> session s then s else sendClientContent message s)"

definition sendContextualUpdate :: "string \<Rightarrow> voice_state \<Rightarrow> voice_state" where
  "sendContextualUpdate update s =
     (if \<not> session s then s else sendClientContent (''[CONTEXT UPDATE] '' @ update) s)"

text \<open>
  The response the loop builds for one call, when the call has a name and an id and its
  executor returns; used to state what the loop produces.
\<close>

definition response_of :: "client_tools \<Rightarrow> function_call \<Rightarrow> function_response option" where
  "response_of tools call =
     (case (call_name call, call_id call) of
        (Some name, Some cid) \<Rightarrow>
          (case run_tool tools name (args_or_empty call) of
             Inl e \<Rightarrow> None
           | Inr result \<Rightarrow> Some \<lparr>resp_id = cid, resp_name = name, resp_result = result\<rparr>)
      | _ \<Rightarrow> None)"


subsection \<open>Example inputs\<close>

text \<open>A session before \<^verbatim>\<open>startSession\<close>, and a connected one with both pipelines running.\<close>

definition fresh_state :: voice_state where
  "fresh_state =
     \<lparr>realtimeStatus = S_idle, realtimeMode = M_idle, speakingSticky = False,
      modeRequests = [], session = False,
      audioCapture = False, audioPlayer = False, playerStarted = False, captureStarted = False,
      played = [], clientContent = [], toolInvocations = [], toolResponses = []\<rparr>"

definition connected_state :: voice_state where
  "connected_state =
     \<lparr>realtimeStatus = S_connected, realtimeMode = M_idle, speakingSticky = False,
      modeRequests = [], session = True,
      audioCapture = True, audioPlayer = True, playerStarted = True, captureStarted = True,
      played = [], clientContent = [], toolInvocations = [], toolResponses = []\<rparr>"

text \<open>Executors that return, and executors of which the first throws.\<close>

definition tools_ok :: client_tools where
  "tools_ok =
     \<lparr>messageClaudeCode = (\<lambda>a. Inr ''sent''), processPermissionRequest = (\<lambda>a. Inr ''done'')\<rparr>"

definition tools_throwing :: client_tools where
  "tools_throwing =
     \<lparr>messageClaudeCode = (\<lambda>a. Inl (Thrown ''sync failed'')),
      processPermissionRequest = (\<lambda>a. Inr ''done'')\<rparr>"

definition mk_call :: "string \<Rightarrow> string \<Rightarrow> function_call" where
  "mk_call cid name = \<lparr>call_id = Some cid, call_name = Some name, call_args = None\<rparr>"

definition audio_part :: "string \<Rightarrow> part" where
  "audio_part chunk =
     \<lparr>inlineData = Some \<lparr>inline_bytes = Some chunk, mimeType = Some ''audio/pcm;rate=24000''\<rparr>\<rparr>"


text \<open>The two messages of the second end-to-end scenario of the spec.\<close>

definition msg_audio_only :: server_message where
  "msg_audio_only =
     \<lparr>serverContent =
        Some \<lparr>modelTurn = Some \<lparr>parts = Some [audio_part ''AAAA'']\<rparr>, turnComplete = False\<rparr>,
      toolCall = None\<rparr>"

definition msg_turn_complete_only :: server_message where
  "msg_turn_complete_only =
     \<lparr>serverContent = Some \<lparr>modelTurn = None, turnComplete = True\<rparr>, toolCall = None\<rparr>"

section \<open>Native capture (\<^verbatim>\<open>createAudioCapture\<close> of \<^verbatim>\<open>capture.native.ts\<close>)\<close>

text \<open>An invocation of one of the two callbacks of \<^verbatim>\<open>AudioCaptureOptions\<close>.\<close>

datatype callback_event = OnData string | OnError js_error

text \<open>\<^verbatim>\<open>onData\<close> is required; \<^verbatim>\<open>onError\<close> is optional (\<^verbatim>\<open>options.onError?.(...)\<close>).\<close>

record capture_options =
  has_onError :: bool

text \<open>
  The callback given to \<^verbatim>\<open>setInterval\<close> is an \<^verbatim>\<open>async\<close> function: it runs up to its next
  \<^verbatim>\<open>await\<close>, and anything else (\<^verbatim>\<open>stop()\<close>, another firing of the timer, another run of
  the callback) can run before it is resumed. A run of the callback is therefore a value
  of its own, named by the \<^verbatim>\<open>await\<close> it is suspended at:
  \<^verbatim>\<open>currentRecording.stop()\<close> (l.57), \<^verbatim>\<open>readAsStringAsync\<close> (l.61),
  \<^verbatim>\<open>deleteAsync(...).catch(...)\<close> (l.68), \<^verbatim>\<open>prepareToRecordAsync\<close> (l.76); or it has returned.
\<close>

datatype tick_stage = AwaitingStop | AwaitingRead | AwaitingDelete | AwaitingPrepare | Returned

text \<open>
  The three variables of the closure, the number of recorders constructed so far (the next
  recorder is named by it), the runs of the poll callback started so far (the \<open>i\<close>-th run
  at position \<open>i\<close>), and the callbacks invoked so far, in order.
\<close>

record native_capture =
  recording :: "nat option"
  pollInterval :: bool
  stopped :: bool
  recorders_made :: nat
  ticks :: "tick_stage list"
  callbacks :: "callback_event list"

text \<open>
  How an awaited promise of the poll callback settles, with what the synchronous code that
  runs next gets from the recorder and the file system:
  \<^item> \<open>StopDone u ctor\<close>: \<^verbatim>\<open>currentRecording.stop()\<close> resolved, \<^verbatim>\<open>currentRecording.uri\<close> is
    \<open>u\<close>; when there is no uri the next segment is started at once, and \<open>ctor\<close> is the
    exception of \<^verbatim>\<open>new AudioRecorder\<close> if it throws;
  \<^item> \<open>ReadDone base64\<close>: \<^verbatim>\<open>readAsStringAsync\<close> resolved with \<open>base64\<close>;
  \<^item> \<open>DeleteSettled ctor\<close>: the promise \<^verbatim>\<open>deleteAsync(...).catch(() => {})\<close> resolved (it
    resolves also when the deletion is rejected); \<open>ctor\<close> as above;
  \<^item> \<open>PrepareDone r\<close>: \<^verbatim>\<open>prepareToRecordAsync\<close> resolved; \<open>r\<close> is the exception of
    \<^verbatim>\<open>record()\<close> if it throws;
  \<^item> \<open>Rejected e\<close>: the awaited promise rejected with \<open>e\<close> (a call that throws before
    returning its promise is the same, settled at once).
\<close>

datatype settle =
    StopDone "string option" "js_error option"
  | ReadDone string
  | DeleteSettled "js_error option"
  | PrepareDone "js_error option"
  | Rejected js_error

definition report_error :: "capture_options \<Rightarrow> js_error \<Rightarrow> native_capture \<Rightarrow> native_capture" where
  "report_error opts e c =
     (if has_onError opts then c\<lparr>callbacks := callbacks c @ [OnError e]\<rparr> else c)"

text \<open>The \<^verbatim>\<open>catch\<close> of the poll callback (l.79-83): \<^verbatim>\<open>if (!stopped) options.onError?.(...)\<close>.\<close>

definition poll_catch :: "capture_options \<Rightarrow> js_error \<Rightarrow> native_capture \<Rightarrow> native_capture" where
  "poll_catch opts e c = (if \<not> stopped c then report_error opts e c else c)"

definition new_recorder :: "native_capture \<Rightarrow> native_capture" where
  "new_recorder c =
     c\<lparr>recording := Some (recorders_made c), recorders_made := Suc (recorders_made c)\<rparr>"

definition set_stage :: "nat \<Rightarrow> tick_stage \<Rightarrow> native_capture \<Rightarrow> native_capture" where
  "set_stage i st c = c\<lparr>ticks := (ticks c)[i := st]\<rparr>"

text \<open>Run \<open>i\<close> of the callback ends in its \<^verbatim>\<open>catch\<close>.\<close>

definition tick_catch :: "capture_options \<Rightarrow> nat \<Rightarrow> js_error \<Rightarrow> native_capture \<Rightarrow> native_capture" where
  "tick_catch opts i e c = set_stage i Returned (poll_catch opts e c)"

text \<open>
  l.72-76: \<^verbatim>\<open>if (!stopped) { recording = new AudioRecorder(...); await
  recording.prepareToRecordAsync(); ...\<close>. This is one of the two places where the callback
  reads \<^verbatim>\<open>stopped\<close> again after its first line (the other is the \<^verbatim>\<open>catch\<close>).
\<close>

definition restart_section ::
  "capture_options \<Rightarrow> nat \<Rightarrow> js_error option \<Rightarrow> native_capture \<Rightarrow> native_capture" where
  "restart_section opts i ctor c =
     (if \<not> stopped c
      then (case ctor of
              Some e \<Rightarrow> tick_catch opts i e c
            | None \<Rightarrow> set_stage i AwaitingPrepare (new_recorder c))
      else set_stage i Returned c)"

text \<open>
  l.64-66: \<^verbatim>\<open>if (base64 && base64.length > 0) options.onData(base64)\<close>. Nothing here reads
  \<^verbatim>\<open>stopped\<close>. (\<^verbatim>\<open>onData\<close> is taken to return.)
\<close>

definition deliver :: "string \<Rightarrow> native_capture \<Rightarrow> native_capture" where
  "deliver base64 c =
     (if base64 \<noteq> [] then c\<lparr>callbacks := callbacks c @ [OnData base64]\<rparr> else c)"

text \<open>
  Run \<open>i\<close> of the poll callback, suspended at the given \<^verbatim>\<open>await\<close>, is resumed and runs up to
  its next \<^verbatim>\<open>await\<close> or to its end. After \<^verbatim>\<open>prepareToRecordAsync\<close> the code calls
  \<^verbatim>\<open>recording.record()\<close> on the variable of the closure, which \<^verbatim>\<open>stop()\<close> may have set to
  \<^verbatim>\<open>null\<close> in the meantime: then the call throws a \<^verbatim>\<open>TypeError\<close>. A settlement that does
  not belong to the \<^verbatim>\<open>await\<close> the run is suspended at does not occur and changes nothing.
\<close>

fun resume ::
  "capture_options \<Rightarrow> nat \<Rightarrow> tick_stage \<Rightarrow> settle \<Rightarrow> native_capture \<Rightarrow> native_capture" where
  "resume opts i AwaitingStop (Rejected e) c = tick_catch opts i e c"
| "resume opts i AwaitingStop (StopDone u ctor) c =
     (if truthy u then set_stage i AwaitingRead c else restart_section opts i ctor c)"
| "resume opts i AwaitingRead (Rejected e) c = tick_catch opts i e c"
| "resume opts i AwaitingRead (ReadDone base64) c = set_stage i AwaitingDelete (deliver base64 c)"
| "resume opts i AwaitingDelete (DeleteSettled ctor) c = restart_section opts i ctor c"
| "resume opts i AwaitingPrepare (Rejected e) c = tick_catch opts i e c"
| "resume opts i AwaitingPrepare (PrepareDone r) c =
     (case recording c of
        None \<Rightarrow> tick_catch opts i TypeError c
      | Some current \<Rightarrow>
          (case r of
             Some e \<Rightarrow> tick_catch opts i e c
           | None \<Rightarrow> set_stage i Returned c))"
| "resume opts i stage r c = c"

text \<open>
  The timer fires: the callback runs its first line, \<^verbatim>\<open>if (stopped || !recording) return\<close>,
  and otherwise calls \<^verbatim>\<open>currentRecording.stop()\<close> and is suspended at that \<^verbatim>\<open>await\<close>.
\<close>

definition timer_fires :: "native_capture \<Rightarrow> native_capture" where
  "timer_fires c =
     (if stopped c \<or> recording c = None then c
      else c\<lparr>ticks := ticks c @ [AwaitingStop]\<rparr>)"

text \<open>
  \<^verbatim>\<open>stop()\<close> (l.93-105). It clears the interval, so the timer does not fire again; the runs
  of the callback that are suspended at an \<^verbatim>\<open>await\<close> are not cancelled.
\<close>

definition capture_stop_native :: "native_capture \<Rightarrow> native_capture" where
  "capture_stop_native c = c\<lparr>stopped := True, pollInterval := False, recording := None\<rparr>"

text \<open>
  What happens to a capture whose \<^verbatim>\<open>start()\<close> has returned, one event at a time: the interval
  timer fires (only while the interval is armed), the promise that run \<open>i\<close> of the callback
  awaits settles, or the owner calls \<^verbatim>\<open>stop()\<close>. (\<^verbatim>\<open>start()\<close> is not called again.)
\<close>

datatype capture_input = TimerFires | Settles nat settle | Stop

fun capture_step :: "capture_options \<Rightarrow> capture_input \<Rightarrow> native_capture \<Rightarrow> native_capture" where
  "capture_step opts TimerFires c = (if pollInterval c then timer_fires c else c)"
| "capture_step opts (Settles i r) c =
     (if i < length (ticks c) then resume opts i (ticks c ! i) r c else c)"
| "capture_step opts Stop c = capture_stop_native c"

fun capture_run :: "capture_options \<Rightarrow> capture_input list \<Rightarrow> native_capture \<Rightarrow> native_capture" where
  "capture_run opts [] c = c"
| "capture_run opts (i # inputs) c = capture_run opts inputs (capture_step opts i c)"

subsection \<open>\<^verbatim>\<open>start()\<close>\<close>

text \<open>
  \<^verbatim>\<open>start()\<close> (l.30-91) has two \<^verbatim>\<open>await\<close>s: \<^verbatim>\<open>setAudioModeAsync\<close> (l.34) and, inside
  \<^verbatim>\<open>startRecordingCycle\<close>, \<^verbatim>\<open>prepareToRecordAsync\<close> of the first recorder (l.48).
\<close>

datatype start_stage = AwaitingAudioMode | AwaitingFirstPrepare

text \<open>
  \<open>AudioModeDone ctor\<close>: \<^verbatim>\<open>setAudioModeAsync\<close> resolved, \<open>ctor\<close> is the exception of
  \<^verbatim>\<open>new AudioRecorder\<close> if it throws. \<open>FirstPrepareDone r\<close>: \<^verbatim>\<open>prepareToRecordAsync\<close>
  resolved, \<open>r\<close> is the exception of \<^verbatim>\<open>record()\<close> if it throws.
\<close>

datatype start_settle =
    AudioModeDone "js_error option"
  | FirstPrepareDone "js_error option"
  | StartRejected js_error

text \<open>Where a call of \<^verbatim>\<open>start()\<close> is: suspended, resolved, or rejected.\<close>

datatype start_progress = StartAwaits start_stage | StartResolved | StartRejects js_error

text \<open>The synchronous beginning of \<^verbatim>\<open>start()\<close>, up to its first \<^verbatim>\<open>await\<close>.\<close>

definition start_call :: "native_capture \<Rightarrow> start_progress \<times> native_capture" where
  "start_call c = (StartAwaits AwaitingAudioMode, c\<lparr>stopped := False\<rparr>)"

text \<open>
  \<^verbatim>\<open>start()\<close> is resumed. Only a rejection of \<^verbatim>\<open>setAudioModeAsync\<close> makes it reject; the
  \<^verbatim>\<open>catch\<close> of \<^verbatim>\<open>startRecordingCycle\<close> (l.85-87) calls \<^verbatim>\<open>onError\<close> without reading
  \<^verbatim>\<open>stopped\<close>.
\<close>

fun start_resume ::
  "capture_options \<Rightarrow> start_stage \<Rightarrow> start_settle \<Rightarrow> native_capture
     \<Rightarrow> start_progress \<times> native_capture" where
  "start_resume opts AwaitingAudioMode (StartRejected e) c = (StartRejects e, c)"
| "start_resume opts AwaitingAudioMode (AudioModeDone ctor) c =
     (if stopped c then (StartResolved, c)
      else (case ctor of
              Some e \<Rightarrow> (StartResolved, report_error opts e c)
            | None \<Rightarrow> (StartAwaits AwaitingFirstPrepare, new_recorder c)))"
| "start_resume opts AwaitingFirstPrepare (StartRejected e) c =
     (StartResolved, report_error opts e c)"
| "start_resume opts AwaitingFirstPrepare (FirstPrepareDone r) c =
     (case recording c of
        None \<Rightarrow> (StartResolved, report_error opts TypeError c)
      | Some current \<Rightarrow>
          (case r of
             Some e \<Rightarrow> (StartResolved, report_error opts e c)
           | None \<Rightarrow> (StartResolved, c\<lparr>pollInterval := True\<rparr>)))"
| "start_resume opts stage r c = (StartAwaits stage, c)"

subsection \<open>Observations\<close>

text \<open>
  A capture error in a run of the poll callback: the settlement sends the run to its
  \<^verbatim>\<open>catch\<close>. (A rejected deletion is not one: it is swallowed by \<^verbatim>\<open>.catch(() => {})\<close>.)
\<close>

fun settle_faults :: "tick_stage \<Rightarrow> settle \<Rightarrow> bool" where
  "settle_faults AwaitingStop (Rejected e) = True"
| "settle_faults AwaitingStop (StopDone u (Some e)) = (\<not> truthy u)"
| "settle_faults AwaitingRead (Rejected e) = True"
| "settle_faults AwaitingDelete (DeleteSettled (Some e)) = True"
| "settle_faults AwaitingPrepare (Rejected e) = True"
| "settle_faults AwaitingPrepare (PrepareDone (Some e)) = True"
| "settle_faults stage r = False"

definition is_error_event :: "callback_event \<Rightarrow> bool" where
  "is_error_event ev = (case ev of OnError e \<Rightarrow> True | OnData d \<Rightarrow> False)"

definition error_count :: "native_capture \<Rightarrow> nat" where
  "error_count c = length (filter is_error_event (callbacks c))"

definition data_count :: "native_capture \<Rightarrow> nat" where
  "data_count c = length (filter (\<lambda>ev. \<not> is_error_event ev) (callbacks c))"

text \<open>A run of the callback that has not passed its call of \<^verbatim>\<open>onData\<close> yet.\<close>

definition before_onData :: "tick_stage \<Rightarrow> bool" where
  "before_onData st = (st = AwaitingStop \<or> st = AwaitingRead)"

definition pending_reads :: "native_capture \<Rightarrow> nat" where
  "pending_reads c = length (filter before_onData (ticks c))"

subsection \<open>Example inputs\<close>

definition idle_capture :: native_capture where
  "idle_capture =
     \<lparr>recording = None, pollInterval = False, stopped = False, recorders_made = 0,
      ticks = [], callbacks = []\<rparr>"

text \<open>
  The running state: \<^verbatim>\<open>start()\<close> has returned after it made the first recorder and armed
  the interval.
\<close>

definition running_capture :: native_capture where
  "running_capture =
     \<lparr>recording = Some 0, pollInterval = True, stopped = False, recorders_made = Suc 0,
      ticks = [], callbacks = []\<rparr>"

definition with_onError :: capture_options where
  "with_onError = \<lparr>has_onError = True\<rparr>"

definition device_fault :: js_error where
  "device_fault = Thrown ''device disconnected''"

definition segment_uri :: "string option" where
  "segment_uri = Some ''file:///cache/recording.m4a''"

section \<open>PCM codec (\<^verbatim>\<open>float32ToBase64PCM16\<close>, \<^verbatim>\<open>base64PCM16ToFloat32\<close>)\<close>

text \<open>
  An element of a \<^verbatim>\<open>Float32Array\<close>: a finite value, as the rational it denotes, or NaN
  (which the code produces itself when it reads past the end of an array). Infinities are
  not modelled.
\<close>

datatype f32 = Num rat | NaN

text \<open>
  Storing a number into an \<^verbatim>\<open>Int16Array\<close> (ToInt16): the fraction is dropped, towards
  zero, and the integer is reduced modulo \<open>2^16\<close> into the signed range.
\<close>

definition js_trunc :: "rat \<Rightarrow> int" where
  "js_trunc x = (if x < 0 then - \<lfloor>- x\<rfloor> else \<lfloor>x\<rfloor>)"

definition to_int16 :: "rat \<Rightarrow> 16 word" where
  "to_int16 x = word_of_int (js_trunc x)"

text \<open>\<^verbatim>\<open>Math.max(-1, Math.min(1, x))\<close>.\<close>

definition clamp_unit :: "rat \<Rightarrow> rat" where
  "clamp_unit x = max (- 1) (min 1 x)"

text \<open>
  \<^verbatim>\<open>s < 0 ? s * 0x8000 : s * 0x7FFF\<close>. The product of a 24-bit significand and a 15- or
  16-bit constant is exact in double precision, so no rounding occurs here.
\<close>

definition scale_sample :: "rat \<Rightarrow> rat" where
  "scale_sample x = (let s = clamp_unit x in if s < 0 then s * 0x8000 else s * 0x7FFF)"

text \<open>
  The body of the first loop. For NaN, \<^verbatim>\<open>Math.min\<close> and \<^verbatim>\<open>Math.max\<close> give NaN,
  \<^verbatim>\<open>NaN < 0\<close> is false, the product is NaN, and ToInt16 of NaN is 0.
\<close>

fun pcm16_of_sample :: "f32 \<Rightarrow> 16 word" where
  "pcm16_of_sample (Num x) = to_int16 (scale_sample x)"
| "pcm16_of_sample NaN = 0"

text \<open>\<^verbatim>\<open>new Uint8Array(int16.buffer)\<close>: the samples as bytes, low byte first.\<close>

definition int16_buffer_bytes :: "16 word list \<Rightarrow> byte list" where
  "int16_buffer_bytes ws = concat (map (\<lambda>w. bytes_of_u16 w True) ws)"

text \<open>
  The binary string built with \<^verbatim>\<open>String.fromCharCode\<close> has one character per byte and is
  kept as the byte list. The platform's \<^verbatim>\<open>btoa\<close> is a parameter.
\<close>

definition float32ToBase64PCM16 :: "(byte list \<Rightarrow> string) \<Rightarrow> f32 list \<Rightarrow> string" where
  "float32ToBase64PCM16 btoa float32 =
     btoa (int16_buffer_bytes (map pcm16_of_sample float32))"

text \<open>\<^verbatim>\<open>new Int16Array(bytes.buffer)\<close>: pairs of bytes, low byte first.\<close>

fun int16_view :: "byte list \<Rightarrow> 16 word list" where
  "int16_view (lo # hi # rest) = (ucast lo OR push_bit 8 (ucast hi)) # int16_view rest"
| "int16_view rest = []"

text \<open>
  The platform's \<^verbatim>\<open>atob\<close> is a parameter; \<open>None\<close> is its \<^verbatim>\<open>InvalidCharacterError\<close>. A
  buffer of odd length cannot be viewed as \<^verbatim>\<open>Int16Array\<close> (\<^verbatim>\<open>RangeError\<close>). A 16-bit
  integer divided by \<open>0x8000\<close> is exact in single precision.
\<close>

definition base64PCM16ToFloat32 ::
  "(string \<Rightarrow> byte list option) \<Rightarrow> string \<Rightarrow> js_error + f32 list" where
  "base64PCM16ToFloat32 atob base64 =
     (case atob base64 of
        None \<Rightarrow> Inl InvalidCharacterError
      | Some bytes \<Rightarrow>
          (if odd (length bytes) then Inl RangeError
           else Inr (map (\<lambda>w. Num (of_int (sint w) / 0x8000)) (int16_view bytes))))"

subsection \<open>A reference base64, for the examples\<close>

definition base64_alphabet :: string where
  "base64_alphabet = ''ABCDEFGHIJKLMNOPQRSTUVWXYZabcdefghijklmnopqrstuvwxyz0123456789+/''"

definition b64_char :: "nat \<Rightarrow> char" where
  "b64_char i = base64_alphabet ! i"

fun index_of :: "'a \<Rightarrow> 'a list \<Rightarrow> nat option" where
  "index_of x [] = None"
| "index_of x (y # ys) = (if x = y then Some 0 else map_option Suc (index_of x ys))"

fun base64_encode :: "byte list \<Rightarrow> string" where
  "base64_encode [] = []"
| "base64_encode [a] =
     (let x = unat a
      in [b64_char (x div 4), b64_char (x mod 4 * 16), CHR ''='', CHR ''=''])"
| "base64_encode [a, b] =
     (let x = unat a; y = unat b
      in [b64_char (x div 4), b64_char (x mod 4 * 16 + y div 16), b64_char (y mod 16 * 4),
          CHR ''=''])"
| "base64_encode (a # b # c # rest) =
     (let x = unat a; y = unat b; z = unat c
      in [b64_char (x div 4), b64_char (x mod 4 * 16 + y div 16),
          b64_char (y mod 16 * 4 + z div 64), b64_char (z mod 64)] @ base64_encode rest)"

text \<open>Decoding of padded base64 text as \<open>base64_encode\<close> writes it; anything else is refused.\<close>

fun base64_decode :: "string \<Rightarrow> byte list option" where
  "base64_decode [] = Some []"
| "base64_decode (c1 # c2 # c3 # c4 # rest) =
     (case (index_of c1 base64_alphabet, index_of c2 base64_alphabet) of
        (Some i1, Some i2) \<Rightarrow>
          (if c3 = CHR ''='' \<and> c4 = CHR ''='' \<and> rest = []
           then Some [of_nat (i1 * 4 + i2 div 16)]
           else
             (case index_of c3 base64_alphabet of
                None \<Rightarrow> None
              | Some i3 \<Rightarrow>
                  (if c4 = CHR ''='' \<and> rest = []
                   then Some [of_nat (i1 * 4 + i2 div 16), of_nat (i2 mod 16 * 16 + i3 div 4)]
                   else
                     (case index_of c4 base64_alphabet of
                        None \<Rightarrow> None
                      | Some i4 \<Rightarrow>
                          map_option
                            (\<lambda>bs. [of_nat (i1 * 4 + i2 div 16), of_nat (i2 mod 16 * 16 + i3 div 4),
                                   of_nat (i3 mod 4 * 64 + i4)] @ bs)
                            (base64_decode rest)))))
      | _ \<Rightarrow> None)"
| "base64_decode rest = None"

section \<open>Resampler (\<^verbatim>\<open>resample\<close>)\<close>

subsection \<open>Floating-point rounding\<close>

text \<open>
  The arithmetic of the resampler is in double precision, and its quotients are not exact.
  \<open>fl_round p emin\<close> is the rounding of IEEE 754 to the nearest number with a significand of
  \<open>p\<close> bits, ties to the even significand, with gradual underflow below \<open>2^emin\<close>.
  Overflow to infinity is not modelled: the operands here stay far below it.
\<close>

definition round_half_even :: "rat \<Rightarrow> int" where
  "round_half_even x =
     (let f = \<lfloor>x\<rfloor>; r = x - of_int f
      in if r < 1 / 2 then f else if 1 / 2 < r then f + 1 else if even f then f else f + 1)"

text \<open>The exponent of a non-zero number: the integer \<open>e\<close> with \<open>2^e \<le> |x| < 2^(e+1)\<close>.\<close>

definition binary_exponent :: "rat \<Rightarrow> int" where
  "binary_exponent x =
     (let k = bitlen (fst (quotient_of \<bar>x\<bar>)) - bitlen (snd (quotient_of \<bar>x\<bar>))
      in if 2 powi k \<le> \<bar>x\<bar> then k else k - 1)"

definition fl_round :: "nat \<Rightarrow> int \<Rightarrow> rat \<Rightarrow> rat" where
  "fl_round p emin x =
     (if x = 0 then 0
      else (let e = max (binary_exponent x) emin; ulp = 2 powi (e - int p + 1)
            in of_int (round_half_even (x / ulp)) * ulp))"

definition fl64 :: "rat \<Rightarrow> rat" where
  "fl64 = fl_round 53 (- 1022)"

definition fl32 :: "rat \<Rightarrow> rat" where
  "fl32 = fl_round 24 (- 126)"

subsection \<open>The function\<close>

text \<open>\<^verbatim>\<open>input[k]\<close>: outside the array the read gives \<^verbatim>\<open>undefined\<close>, which is NaN in arithmetic.\<close>

definition array_get :: "f32 list \<Rightarrow> int \<Rightarrow> f32" where
  "array_get xs k = (if 0 \<le> k \<and> k < int (length xs) then xs ! nat k else NaN)"

text \<open>
  \<^verbatim>\<open>input[low] * (1 - frac) + input[high] * frac\<close>, computed in double precision and stored
  into the \<^verbatim>\<open>Float32Array\<close>.
\<close>

definition interpolate :: "f32 \<Rightarrow> f32 \<Rightarrow> rat \<Rightarrow> f32" where
  "interpolate lo hi fraction =
     (case (lo, hi) of
        (Num u, Num v) \<Rightarrow>
          Num (fl32 (fl64 (fl64 (u * fl64 (1 - fraction)) + fl64 (v * fraction))))
      | _ \<Rightarrow> NaN)"

text \<open>
  Sample rates are natural numbers (below \<open>2^53\<close>, so that they are double precision
  numbers). With a target rate of 0 the ratio is infinite and the output is empty; with a
  source rate of 0 the ratio is 0, and the output length is NaN for an empty input (an
  empty array) and infinite otherwise (\<^verbatim>\<open>RangeError\<close>).
\<close>

definition resample :: "f32 list \<Rightarrow> nat \<Rightarrow> nat \<Rightarrow> js_error + f32 list" where
  "resample input sourceSampleRate targetSampleRate =
     (if sourceSampleRate = targetSampleRate then Inr input
      else if targetSampleRate = 0 then Inr []
      else if sourceSampleRate = 0 then (if input = [] then Inr [] else Inl RangeError)
      else
        (let ratio = fl64 (of_nat sourceSampleRate / of_nat targetSampleRate);
             outputLength = nat \<lfloor>fl64 (of_nat (length input) / ratio)\<rfloor>
         in Inr (map (\<lambda>i.
                   (let srcIndex = fl64 (of_nat i * ratio);
                        low = \<lfloor>srcIndex\<rfloor>;
                        high = min (low + 1) (int (length input) - 1);
                        fraction = fl64 (srcIndex - of_int low)
                    in interpolate (array_get input low) (array_get input high) fraction))
                 [0..<outputLength])))"

section \<open>Properties of the WAV framing\<close>

lemma nat_le_bytes:
  fixes x :: nat
  assumes "x < 4294967296"
  shows "x mod 256 + 256 * (x div 256 mod 256) + 65536 * (x div 65536 mod 256)
         + 16777216 * (x div 16777216 mod 256) = x"
proof -
  define a where "a = x div 256"
  define b where "b = a div 256"
  define c where "c = b div 256"
  have d1: "x div 65536 = b"
    unfolding b_def a_def by (simp add: div_mult2_eq)
  have d2: "x div 16777216 = c"
    unfolding c_def b_def a_def by (simp add: div_mult2_eq)
  have c_lt: "c < 256"
    using assms unfolding d2 [symmetric] by simp
  have e0: "x = 256 * a + x mod 256" unfolding a_def by simp
  have e1: "a = 256 * b + a mod 256" unfolding b_def by simp
  have e2: "b = 256 * c + b mod 256" unfolding c_def by simp
  have e3: "c mod 256 = c" using c_lt by simp
  have "x mod 256 + 256 * (a mod 256) + 65536 * (b mod 256) + 16777216 * (c mod 256) = x"
    using e0 e1 e2 e3 by linarith
  then show ?thesis unfolding d1 d2 a_def [symmetric] .
qed

lemma unat_u32_le_bytes:
  fixes w :: "32 word"
  shows "unat (ucast w :: byte) + 256 * unat (ucast (drop_bit 8 w) :: byte)
         + 65536 * unat (ucast (drop_bit 16 w) :: byte)
         + 16777216 * unat (ucast (drop_bit 24 w) :: byte) = unat w"
proof -
  have lt: "unat w < 4294967296"
    using unsigned_less [of w, where ?'a = nat] by simp
  have b0: "unat (ucast w :: byte) = unat w mod 256"
    by (simp only: unsigned_ucast_eq unat_drop_bit_eq) (simp add: take_bit_eq_mod drop_bit_eq_div)
  have b1: "unat (ucast (drop_bit 8 w) :: byte) = (unat w div 256) mod 256"
    by (simp only: unsigned_ucast_eq unat_drop_bit_eq) (simp add: take_bit_eq_mod drop_bit_eq_div)
  have b2: "unat (ucast (drop_bit 16 w) :: byte) = (unat w div 65536) mod 256"
    by (simp only: unsigned_ucast_eq unat_drop_bit_eq) (simp add: take_bit_eq_mod drop_bit_eq_div)
  have b3: "unat (ucast (drop_bit 24 w) :: byte) = (unat w div 16777216) mod 256"
    by (simp only: unsigned_ucast_eq unat_drop_bit_eq) (simp add: take_bit_eq_mod drop_bit_eq_div)
  show ?thesis unfolding b0 b1 b2 b3 by (rule nat_le_bytes [OF lt])
qed

lemma unat_u32_of_nat_36:
  "unat (36 + word_of_nat n :: 32 word) = (36 + n) mod 4294967296"
proof -
  have "(36 + word_of_nat n :: 32 word) = word_of_nat (36 + n)" by simp
  then show ?thesis by (simp only: unat_of_nat) simp
qed

lemma length_bytes_of_u32 [simp]: "length (bytes_of_u32 w e) = 4"
  by (simp add: bytes_of_u32_def Let_def)

lemma length_bytes_of_u16 [simp]: "length (bytes_of_u16 w e) = 2"
  by (simp add: bytes_of_u16_def Let_def)

lemma unat_u32_of_nat:
  "unat (word_of_nat n :: 32 word) = n mod 4294967296"
  by (simp only: unat_of_nat) simp

lemma createWavHeader_length:
  "\<exists>h. createWavHeader n = Some h \<and> length h = 44"
  unfolding createWavHeader_def setUint32_def setUint16_def Let_def
  by (simp add: write_bytes_def)

lemma createWavHeader_riff_size:
  "createWavHeader n \<bind> getUint32 4 True = Some ((36 + n) mod 2 ^ 32)"
  unfolding createWavHeader_def setUint32_def setUint16_def Let_def
  by (simp add: write_bytes_def getUint32_def bytes_of_u32_def bytes_of_u16_def
      unat_u32_le_bytes unat_u32_of_nat_36)

lemma createWavHeader_data_size:
  "createWavHeader n \<bind> getUint32 40 True = Some (n mod 2 ^ 32)"
  unfolding createWavHeader_def setUint32_def setUint16_def Let_def
  by (simp add: write_bytes_def getUint32_def bytes_of_u32_def bytes_of_u16_def
      unat_u32_le_bytes unat_u32_of_nat)

text \<open>
  C6, as stated, fails: for the empty payload the declared total-size field (offset 4) is 36,
  while header length plus payload length is 44.
\<close>

theorem createWavHeader_total_size_counterexample:
  "createWavHeader 0 \<bind> getUint32 4 True = Some 36
   \<and> map_option length (createWavHeader 0) = Some 44
   \<and> createWavHeader 0 \<bind> getUint32 4 True
       \<noteq> map_option (\<lambda>h. length h + 0) (createWavHeader 0)"
proof -
  have f: "createWavHeader 0 \<bind> getUint32 4 True = Some 36"
    using createWavHeader_riff_size [of 0] by simp
  obtain h where h: "createWavHeader 0 = Some h" "length h = 44"
    using createWavHeader_length [of 0] by blast
  show ?thesis using f h by simp
qed

text \<open>
  C6, amended: for every payload length \<open>n\<close> the header is 44 bytes long and its declared
  total-size field (offset 4, little-endian) is \<open>36 + n\<close>, that is header length minus the
  8 bytes of the RIFF tag and of the size field itself, plus the payload length, as an
  unsigned 32-bit value; the data-chunk size field (offset 40) is \<open>n\<close>. The container is
  the header followed by the payload, so the field is the container's length minus 8.
\<close>

theorem createWavHeader_total_size:
  "\<exists>h. createWavHeader n = Some h \<and> length h = 44
       \<and> getUint32 4 True h = Some ((length h - 8 + n) mod 2 ^ 32)
       \<and> getUint32 40 True h = Some (n mod 2 ^ 32)
       \<and> (n + 36 < 2 ^ 32 \<longrightarrow> getUint32 4 True h = Some (length h - 8 + n))
       \<and> wavBytes (replicate n b) = Some (h @ replicate n b)"
proof -
  obtain h where h: "createWavHeader n = Some h" "length h = 44"
    using createWavHeader_length [of n] by blast
  have r: "getUint32 4 True h = Some ((36 + n) mod 2 ^ 32)"
    using createWavHeader_riff_size [of n] h by simp
  have d: "getUint32 40 True h = Some (n mod 2 ^ 32)"
    using createWavHeader_data_size [of n] h by simp
  have w: "wavBytes (replicate n b) = Some (h @ replicate n b)"
    using h by (simp add: wavBytes_def)
  have r': "getUint32 4 True h = Some ((length h - 8 + n) mod 2 ^ 32)"
    using r h(2) by simp
  have e: "n + 36 < 2 ^ 32 \<longrightarrow> getUint32 4 True h = Some (length h - 8 + n)"
  proof
    assume "n + 36 < 2 ^ 32"
    then have "(36 + n) mod 2 ^ 32 = 36 + n" by simp
    then show "getUint32 4 True h = Some (length h - 8 + n)"
      using r h(2) by simp
  qed
  from h(1) h(2) r' d e w show ?thesis by blast
qed

theorem createWavHeader_total_size_witness:
  "\<exists>h. createWavHeader 1000 = Some h \<and> length h = 44
       \<and> getUint32 4 True h = Some 1036 \<and> getUint32 40 True h = Some 1000"
proof -
  obtain h where h: "createWavHeader 1000 = Some h" "length h = 44"
      "getUint32 4 True h = Some ((length h - 8 + 1000) mod 2 ^ 32)"
      "getUint32 40 True h = Some (1000 mod 2 ^ 32)"
    using createWavHeader_total_size [of 1000 0] by blast
  have "getUint32 4 True h = Some 1036" using h(2,3) by simp
  moreover have "getUint32 40 True h = Some 1000" using h(4) by simp
  ultimately show ?thesis using h(1,2) by blast
qed

section \<open>Properties of the voice session\<close>

lemma has_name_and_id_cases:
  "has_name_and_id call \<Longrightarrow> \<exists>name cid. call_name call = Some name \<and> call_id call = Some cid
      \<and> name \<noteq> [] \<and> cid \<noteq> []"
  by (auto simp: has_name_and_id_def truthy_def split: option.splits)

lemma tool_loop_skip:
  "\<not> has_name_and_id call \<Longrightarrow> tool_loop tools (call # rest) acc s = tool_loop tools rest acc s"
  by simp

lemma tool_loop_step_Inr:
  assumes "has_name_and_id call" "call_name call = Some name" "call_id call = Some cid"
      "run_tool tools name (args_or_empty call) = Inr result"
  shows "tool_loop tools (call # rest) acc s =
           tool_loop tools rest (acc @ [\<lparr>resp_id = cid, resp_name = name, resp_result = result\<rparr>])
             (if is_known_tool name
              then s\<lparr>toolInvocations := toolInvocations s @ [(name, args_or_empty call)]\<rparr> else s)"
  using assms by (simp add: Let_def)

lemma tool_loop_step_Inl:
  assumes "has_name_and_id call" "call_name call = Some name" "call_id call = Some cid"
      "run_tool tools name (args_or_empty call) = Inl e"
  shows "tool_loop tools (call # rest) acc s =
           (Inl e, if is_known_tool name
              then s\<lparr>toolInvocations := toolInvocations s @ [(name, args_or_empty call)]\<rparr> else s)"
  using assms by (simp add: Let_def)

lemma run_tool_Inl_known: "run_tool tools name a = Inl e \<Longrightarrow> is_known_tool name"
  by (auto simp: run_tool_def is_known_tool_def split: if_splits)


lemma tool_loop_frame:
  "\<exists>inv. snd (tool_loop tools calls acc s) = s\<lparr>toolInvocations := toolInvocations s @ inv\<rparr>"
proof (induction calls arbitrary: acc s)
  case Nil
  have "s = s\<lparr>toolInvocations := toolInvocations s @ []\<rparr>" by simp
  then show ?case by (metis tool_loop.simps(1) snd_conv)
next
  case (Cons call rest)
  show ?case
  proof (cases "has_name_and_id call")
    case False
    show ?thesis unfolding tool_loop_skip [OF False] by (rule Cons.IH)
  next
    case True
    then obtain name cid where nc: "call_name call = Some name" "call_id call = Some cid"
      using has_name_and_id_cases by blast
    define s1 where "s1 = (if is_known_tool name
              then s\<lparr>toolInvocations := toolInvocations s @ [(name, args_or_empty call)]\<rparr> else s)"
    have s1: "\<exists>i1. s1 = s\<lparr>toolInvocations := toolInvocations s @ i1\<rparr>"
    proof (cases "is_known_tool name")
      case True
      then show ?thesis unfolding s1_def by auto
    next
      case False
      have "s = s\<lparr>toolInvocations := toolInvocations s @ []\<rparr>" by simp
      then show ?thesis unfolding s1_def using False by (metis (full_types))
    qed
    then obtain i1 where i1: "s1 = s\<lparr>toolInvocations := toolInvocations s @ i1\<rparr>" by blast
    show ?thesis
    proof (cases "run_tool tools name (args_or_empty call)")
      case (Inl e)
      have "tool_loop tools (call # rest) acc s = (Inl e, s1)"
        unfolding s1_def by (rule tool_loop_step_Inl [OF True nc Inl])
      then show ?thesis using i1 by auto
    next
      case (Inr result)
      have step: "tool_loop tools (call # rest) acc s =
          tool_loop tools rest (acc @ [\<lparr>resp_id = cid, resp_name = name, resp_result = result\<rparr>]) s1"
        unfolding s1_def by (rule tool_loop_step_Inr [OF True nc Inr])
      obtain i2 where "snd (tool_loop tools rest
            (acc @ [\<lparr>resp_id = cid, resp_name = name, resp_result = result\<rparr>]) s1)
          = s1\<lparr>toolInvocations := toolInvocations s1 @ i2\<rparr>"
        using Cons.IH by blast
      then have "snd (tool_loop tools (call # rest) acc s)
          = s\<lparr>toolInvocations := toolInvocations s @ (i1 @ i2)\<rparr>"
        unfolding step i1 by simp
      then show ?thesis by blast
    qed
  qed
qed

lemma tool_loop_append:
  "tool_loop tools (pre @ rest) acc s =
     (case tool_loop tools pre acc s of
        (Inl e, s1) \<Rightarrow> (Inl e, s1)
      | (Inr rs, s1) \<Rightarrow> tool_loop tools rest rs s1)"
proof (induction pre arbitrary: acc s)
  case Nil
  show ?case by simp
next
  case (Cons call pre)
  show ?case
  proof (cases "has_name_and_id call")
    case False
    show ?thesis
      using Cons.IH [of acc s] False by simp
  next
    case True
    then obtain name cid where nc: "call_name call = Some name" "call_id call = Some cid"
      using has_name_and_id_cases by blast
    show ?thesis
    proof (cases "run_tool tools name (args_or_empty call)")
      case (Inl e)
      show ?thesis
        unfolding append_Cons tool_loop_step_Inl [OF True nc Inl] by simp
    next
      case (Inr result)
      show ?thesis
        unfolding append_Cons tool_loop_step_Inr [OF True nc Inr] by (rule Cons.IH)
    qed
  qed
qed

lemma response_of_Inr:
  assumes "call_name call = Some name" "call_id call = Some cid"
      "run_tool tools name (args_or_empty call) = Inr result"
  shows "response_of tools call = Some \<lparr>resp_id = cid, resp_name = name, resp_result = result\<rparr>"
  using assms by (simp add: response_of_def)

lemma tool_loop_responses:
  "tool_loop tools calls acc s = (Inr rs, s') \<Longrightarrow>
     map Some rs = map Some acc @ map (response_of tools) (filter has_name_and_id calls)"
proof (induction calls arbitrary: acc s)
  case Nil
  then show ?case by simp
next
  case (Cons call rest)
  show ?case
  proof (cases "has_name_and_id call")
    case False
    have "tool_loop tools rest acc s = (Inr rs, s')"
      using Cons.prems unfolding tool_loop_skip [OF False] .
    from Cons.IH [OF this] show ?thesis using False by simp
  next
    case True
    then obtain name cid where nc: "call_name call = Some name" "call_id call = Some cid"
      using has_name_and_id_cases by blast
    show ?thesis
    proof (cases "run_tool tools name (args_or_empty call)")
      case (Inl e)
      have "tool_loop tools (call # rest) acc s = (Inl e, if is_known_tool name
              then s\<lparr>toolInvocations := toolInvocations s @ [(name, args_or_empty call)]\<rparr> else s)"
        by (rule tool_loop_step_Inl [OF True nc Inl])
      with Cons.prems show ?thesis by simp
    next
      case (Inr result)
      define r where "r = \<lparr>resp_id = cid, resp_name = name, resp_result = result\<rparr>"
      have "\<exists>s1. tool_loop tools rest (acc @ [r]) s1 = (Inr rs, s')"
        using Cons.prems unfolding tool_loop_step_Inr [OF True nc Inr] r_def by blast
      then obtain s1 where "tool_loop tools rest (acc @ [r]) s1 = (Inr rs, s')" by blast
      from Cons.IH [OF this]
      have "map Some rs = map Some (acc @ [r]) @ map (response_of tools) (filter has_name_and_id rest)" .
      moreover have "response_of tools call = Some r"
        unfolding r_def by (rule response_of_Inr [OF nc Inr])
      ultimately show ?thesis using True by simp
    qed
  qed
qed




lemma setRealtimeMode_idle_free:
  "\<not> speakingSticky s \<Longrightarrow>
     setRealtimeMode M_idle False s =
       s\<lparr>modeRequests := modeRequests s @ [(M_idle, False)], realtimeMode := M_idle\<rparr>"
  by (simp add: setRealtimeMode_def Let_def)

lemma setRealtimeMode_forced:
  "setRealtimeMode m True s =
     s\<lparr>modeRequests := modeRequests s @ [(m, True)], realtimeMode := m, speakingSticky := False\<rparr>"
  by (simp add: setRealtimeMode_def Let_def)








text \<open>
  The store as modelled meets what the spec says of the turn elsewhere: in its second
  end-to-end scenario a message with audio and no turn completion makes the turn
  \<open>speaking\<close> and a later message with only the turn-completion signal makes it \<open>idle\<close>,
  and the forced \<open>idle\<close> of \<^verbatim>\<open>onclose\<close> bypasses the stickiness within a message.
\<close>

lemma turn_mode_scenarios:
  "realtimeMode (onmessage tools_ok msg_audio_only connected_state) = M_speaking
   \<and> realtimeMode (onmessage tools_ok msg_turn_complete_only
         (onmessage tools_ok msg_audio_only connected_state)) = M_idle
   \<and> realtimeMode (onclose (handleServerMessage tools_ok msg_audio_only connected_state)) = M_idle
   \<and> realtimeMode (onopen connected_state) = M_idle"
  by (simp add: onmessage_def end_of_message_def handleServerMessage_def msg_audio_only_def
      msg_turn_complete_only_def connected_state_def is_audio_part_def audio_part_def truthy_def
      starts_with_def setRealtimeMode_def setRealtimeStatus_def onclose_def onopen_def
      player_play_def Let_def)



text \<open>
  C7: when \<^verbatim>\<open>startSession\<close> is called with no configured API key, it rejects with the
  configuration error, the published status is \<open>error\<close>, and nothing else of the session
  changes: no player and no capture is created or started, so the microphone is not acquired.
\<close>

theorem startSession_without_api_key:
  assumes "\<not> truthy (geminiApiKey env)"
  shows "fst (startSession env config s) = Some (Error ''Gemini API key not configured'')
     \<and> realtimeStatus (snd (startSession env config s)) = S_error
     \<and> snd (startSession env config s) = s\<lparr>realtimeStatus := S_error\<rparr>
     \<and> captureStarted (snd (startSession env config s)) = captureStarted s
     \<and> playerStarted (snd (startSession env config s)) = playerStarted s
     \<and> audioCapture (snd (startSession env config s)) = audioCapture s
     \<and> audioPlayer (snd (startSession env config s)) = audioPlayer s"
  using assms by (simp add: startSession_def setRealtimeStatus_def Let_def)

theorem startSession_without_api_key_witness:
  "fst (startSession \<lparr>geminiApiKey = None, playerStart = None, captureStart = None,
           liveConnect = None\<rparr> \<lparr>sessionId = ''s1'', initialContext = None\<rparr> fresh_state)
     = Some (Error ''Gemini API key not configured'')
   \<and> realtimeStatus (snd (startSession \<lparr>geminiApiKey = None, playerStart = None,
           captureStart = None, liveConnect = None\<rparr>
           \<lparr>sessionId = ''s1'', initialContext = None\<rparr> fresh_state)) = S_error
   \<and> \<not> captureStarted (snd (startSession \<lparr>geminiApiKey = None, playerStart = None,
           captureStart = None, liveConnect = None\<rparr>
           \<lparr>sessionId = ''s1'', initialContext = None\<rparr> fresh_state))
   \<and> \<not> playerStarted (snd (startSession \<lparr>geminiApiKey = None, playerStart = None,
           captureStart = None, liveConnect = None\<rparr>
           \<lparr>sessionId = ''s1'', initialContext = None\<rparr> fresh_state))"
proof -
  have h: "\<not> truthy (geminiApiKey \<lparr>geminiApiKey = None, playerStart = None,
      captureStart = None, liveConnect = None\<rparr>)"
    by (simp add: truthy_def)
  from startSession_without_api_key [OF h, of "\<lparr>sessionId = ''s1'', initialContext = None\<rparr>"
      fresh_state]
  show ?thesis by (simp add: fresh_state_def)
qed

text \<open>
  C2, as stated, fails: with a first executor that throws, \<^verbatim>\<open>handleToolCalls\<close> rejects
  with that exception, the second call of the batch is never executed, and no result is
  produced or sent for either call.
\<close>

theorem handleToolCalls_executor_exception_counterexample:
  "handleToolCalls tools_throwing
      [mk_call ''1'' ''messageClaudeCode'', mk_call ''2'' ''processPermissionRequest'']
      connected_state
    = (Some (Thrown ''sync failed''),
       connected_state\<lparr>toolInvocations := [(''messageClaudeCode'', [])]\<rparr>)
   \<and> toolResponses (snd (handleToolCalls tools_throwing
      [mk_call ''1'' ''messageClaudeCode'', mk_call ''2'' ''processPermissionRequest'']
      connected_state)) = []"
  by (simp add: handleToolCalls_def tools_throwing_def mk_call_def connected_state_def
      has_name_and_id_def truthy_def run_tool_def is_known_tool_def args_or_empty_def Let_def)

text \<open>
  C2, amended: an exception thrown by a tool executor is not caught. When the calls before
  it have resolved, \<^verbatim>\<open>handleToolCalls\<close> rejects with that exception at the throwing call:
  the calls after it are not executed (the executors invoked are those of the calls up to
  and including the throwing one, whatever follows), no result is produced for it, and no
  tool response is sent. The message handler itself still returns, since it does not await
  the tool calls.
\<close>

theorem handleToolCalls_executor_exception:
  assumes pre: "tool_loop tools pre [] s = (Inr rs, s1)"
    and valid: "has_name_and_id call"
    and name: "call_name call = Some name"
    and throws: "run_tool tools name (args_or_empty call) = Inl e"
  shows "fst (handleToolCalls tools (pre @ call # post) s) = Some e
     \<and> toolResponses (snd (handleToolCalls tools (pre @ call # post) s)) = toolResponses s
     \<and> toolInvocations (snd (handleToolCalls tools (pre @ call # post) s)) =
         toolInvocations s1 @ [(name, args_or_empty call)]
     \<and> snd (handleToolCalls tools (pre @ call # post) s) =
         snd (handleToolCalls tools (pre @ [call]) s)"
proof -
  obtain cid where cid: "call_id call = Some cid"
    using valid has_name_and_id_cases by blast
  have known: "is_known_tool name" using throws by (rule run_tool_Inl_known)
  define s2 where "s2 = s1\<lparr>toolInvocations := toolInvocations s1 @ [(name, args_or_empty call)]\<rparr>"
  have step: "\<And>rest. tool_loop tools (call # rest) rs s1 = (Inl e, s2)"
    unfolding s2_def using tool_loop_step_Inl [OF valid name cid throws] known by simp
  have loop: "\<And>rest. tool_loop tools (pre @ call # rest) [] s = (Inl e, s2)"
    unfolding tool_loop_append pre using step by simp
  have h: "\<And>rest. handleToolCalls tools (pre @ call # rest) s = (Some e, s2)"
    unfolding handleToolCalls_def loop by simp
  obtain inv where "snd (tool_loop tools pre [] s) = s\<lparr>toolInvocations := toolInvocations s @ inv\<rparr>"
    using tool_loop_frame by blast
  then have s1: "s1 = s\<lparr>toolInvocations := toolInvocations s @ inv\<rparr>" using pre by simp
  have tr: "toolResponses s2 = toolResponses s" unfolding s2_def s1 by simp
  have ti: "toolInvocations s2 = toolInvocations s1 @ [(name, args_or_empty call)]"
    unfolding s2_def by simp
  show ?thesis unfolding h [of post] h [of "[]"] using tr ti by simp
qed

theorem handleToolCalls_executor_exception_witness:
  "fst (handleToolCalls tools_throwing
      ([mk_call ''0'' ''processPermissionRequest''] @ mk_call ''1'' ''messageClaudeCode''
         # [mk_call ''2'' ''processPermissionRequest'']) connected_state)
     = Some (Thrown ''sync failed'')
   \<and> toolResponses (snd (handleToolCalls tools_throwing
      ([mk_call ''0'' ''processPermissionRequest''] @ mk_call ''1'' ''messageClaudeCode''
         # [mk_call ''2'' ''processPermissionRequest'']) connected_state)) = []
   \<and> toolInvocations (snd (handleToolCalls tools_throwing
      ([mk_call ''0'' ''processPermissionRequest''] @ mk_call ''1'' ''messageClaudeCode''
         # [mk_call ''2'' ''processPermissionRequest'']) connected_state))
     = [(''processPermissionRequest'', []), (''messageClaudeCode'', [])]"
proof -
  have pre: "tool_loop tools_throwing [mk_call ''0'' ''processPermissionRequest''] [] connected_state
      = (Inr [\<lparr>resp_id = ''0'', resp_name = ''processPermissionRequest'', resp_result = ''done''\<rparr>],
         connected_state\<lparr>toolInvocations := [(''processPermissionRequest'', [])]\<rparr>)"
    by (simp add: tools_throwing_def mk_call_def connected_state_def
        has_name_and_id_def truthy_def run_tool_def is_known_tool_def args_or_empty_def Let_def)
  have valid: "has_name_and_id (mk_call ''1'' ''messageClaudeCode'')"
    by (simp add: mk_call_def has_name_and_id_def truthy_def)
  have name: "call_name (mk_call ''1'' ''messageClaudeCode'') = Some ''messageClaudeCode''"
    by (simp add: mk_call_def)
  have throws: "run_tool tools_throwing ''messageClaudeCode''
      (args_or_empty (mk_call ''1'' ''messageClaudeCode'')) = Inl (Thrown ''sync failed'')"
    by (simp add: run_tool_def tools_throwing_def)
  note t = handleToolCalls_executor_exception [OF pre valid name throws,
      of "[mk_call ''2'' ''processPermissionRequest'']"]
  have a: "fst (handleToolCalls tools_throwing
      ([mk_call ''0'' ''processPermissionRequest''] @ mk_call ''1'' ''messageClaudeCode''
         # [mk_call ''2'' ''processPermissionRequest'']) connected_state)
     = Some (Thrown ''sync failed'')"
    using t by blast
  have "toolResponses (snd (handleToolCalls tools_throwing
      ([mk_call ''0'' ''processPermissionRequest''] @ mk_call ''1'' ''messageClaudeCode''
         # [mk_call ''2'' ''processPermissionRequest'']) connected_state))
     = toolResponses connected_state"
    using t by blast
  then have b: "toolResponses (snd (handleToolCalls tools_throwing
      ([mk_call ''0'' ''processPermissionRequest''] @ mk_call ''1'' ''messageClaudeCode''
         # [mk_call ''2'' ''processPermissionRequest'']) connected_state)) = []"
    by (simp add: connected_state_def)
  have "toolInvocations (snd (handleToolCalls tools_throwing
      ([mk_call ''0'' ''processPermissionRequest''] @ mk_call ''1'' ''messageClaudeCode''
         # [mk_call ''2'' ''processPermissionRequest'']) connected_state))
     = toolInvocations (connected_state\<lparr>toolInvocations := [(''processPermissionRequest'', [])]\<rparr>)
        @ [(''messageClaudeCode'', args_or_empty (mk_call ''1'' ''messageClaudeCode''))]"
    using t by blast
  then have c: "toolInvocations (snd (handleToolCalls tools_throwing
      ([mk_call ''0'' ''processPermissionRequest''] @ mk_call ''1'' ''messageClaudeCode''
         # [mk_call ''2'' ''processPermissionRequest'']) connected_state))
     = [(''processPermissionRequest'', []), (''messageClaudeCode'', [])]"
    by (simp add: args_or_empty_def mk_call_def)
  from a b c show ?thesis by blast
qed

lemma response_of_SomeD:
  assumes "response_of tools call = Some r"
  shows "call_id call = Some (resp_id r)" and "call_name call = Some (resp_name r)"
    and "run_tool tools (resp_name r) (args_or_empty call) = Inr (resp_result r)"
  using assms by (auto simp: response_of_def split: option.splits sum.splits)

lemma handleToolCalls_resolved:
  assumes "tool_loop tools calls [] s = (Inr rs, s1)"
  shows "fst (handleToolCalls tools calls s) = None"
    and "toolResponses (snd (handleToolCalls tools calls s)) =
           (if rs \<noteq> [] \<and> session s then toolResponses s @ [rs] else toolResponses s)"
proof -
  obtain inv where "snd (tool_loop tools calls [] s) = s\<lparr>toolInvocations := toolInvocations s @ inv\<rparr>"
    using tool_loop_frame by blast
  then have s1: "s1 = s\<lparr>toolInvocations := toolInvocations s @ inv\<rparr>" using assms by simp
  show "fst (handleToolCalls tools calls s) = None"
    unfolding handleToolCalls_def assms by simp
  show "toolResponses (snd (handleToolCalls tools calls s)) =
           (if rs \<noteq> [] \<and> session s then toolResponses s @ [rs] else toolResponses s)"
    unfolding handleToolCalls_def assms by (simp add: s1)
qed




lemma handleToolCalls_rejected:
  assumes "fst (handleToolCalls tools calls s) \<noteq> None"
  shows "toolResponses (snd (handleToolCalls tools calls s)) = toolResponses s"
proof -
  obtain r s1 where loop: "tool_loop tools calls [] s = (r, s1)"
    by (cases "tool_loop tools calls [] s")
  obtain inv where "snd (tool_loop tools calls [] s) = s\<lparr>toolInvocations := toolInvocations s @ inv\<rparr>"
    using tool_loop_frame by blast
  then have s1: "s1 = s\<lparr>toolInvocations := toolInvocations s @ inv\<rparr>" using loop by simp
  show ?thesis
  proof (cases r)
    case (Inl e)
    then have "snd (handleToolCalls tools calls s) = s1"
      using loop by (simp add: handleToolCalls_def)
    then show ?thesis by (simp add: s1)
  next
    case (Inr rs)
    then have "fst (handleToolCalls tools calls s) = None"
      using loop by (simp add: handleToolCalls_def)
    then show ?thesis using assms by simp
  qed
qed

lemma handleToolCalls_resolved_order:
  assumes "fst (handleToolCalls tools calls s) = None"
  shows "\<exists>rs. map (\<lambda>r. (Some (resp_id r), Some (resp_name r))) rs =
            map (\<lambda>c. (call_id c, call_name c)) (filter has_name_and_id calls)
     \<and> map Some rs = map (response_of tools) (filter has_name_and_id calls)
     \<and> toolResponses (snd (handleToolCalls tools calls s)) =
          (if rs \<noteq> [] \<and> session s then toolResponses s @ [rs] else toolResponses s)"
proof -
  obtain r s1 where loop: "tool_loop tools calls [] s = (r, s1)"
    by (cases "tool_loop tools calls [] s")
  have "\<exists>rs. r = Inr rs"
  proof (cases r)
    case (Inl e)
    then have "fst (handleToolCalls tools calls s) = Some e"
      using loop by (simp add: handleToolCalls_def)
    then show ?thesis using assms by simp
  next
    case (Inr rs)
    then show ?thesis by blast
  qed
  then obtain rs where loop': "tool_loop tools calls [] s = (Inr rs, s1)"
    using loop by blast
  have resp: "map Some rs = map (response_of tools) (filter has_name_and_id calls)"
    using tool_loop_responses [OF loop'] by simp
  have len: "length rs = length (filter has_name_and_id calls)"
    using resp by (metis length_map)
  have ord: "map (\<lambda>r. (Some (resp_id r), Some (resp_name r))) rs =
            map (\<lambda>c. (call_id c, call_name c)) (filter has_name_and_id calls)"
  proof (rule nth_equalityI)
    show "length (map (\<lambda>r. (Some (resp_id r), Some (resp_name r))) rs) =
          length (map (\<lambda>c. (call_id c, call_name c)) (filter has_name_and_id calls))"
      using len by simp
  next
    fix i assume "i < length (map (\<lambda>r. (Some (resp_id r), Some (resp_name r))) rs)"
    then have i: "i < length rs" by simp
    have "map Some rs ! i = map (response_of tools) (filter has_name_and_id calls) ! i"
      using resp by simp
    then have ri: "response_of tools (filter has_name_and_id calls ! i) = Some (rs ! i)"
      using i len by simp
    show "map (\<lambda>r. (Some (resp_id r), Some (resp_name r))) rs ! i =
          map (\<lambda>c. (call_id c, call_name c)) (filter has_name_and_id calls) ! i"
      using i len response_of_SomeD(1,2) [OF ri] by simp
  qed
  have t: "toolResponses (snd (handleToolCalls tools calls s)) =
          (if rs \<noteq> [] \<and> session s then toolResponses s @ [rs] else toolResponses s)"
    by (rule handleToolCalls_resolved(2) [OF loop'])
  from ord resp t show ?thesis by blast
qed

text \<open>
  C10: tool dispatch preserves the order of the input. For every batch of tool calls, when
  all calls have resolved the results are, in order, those of the calls of the inbound
  message that have both an id and a name, and the batched tool response, sent when there
  is a result and the connection field is set, holds exactly these results in this order;
  when the batch is rejected instead, no tool response is sent at all.
\<close>

theorem handleToolCalls_preserves_order:
  "(fst (handleToolCalls tools calls s) = None \<longrightarrow>
      (\<exists>rs. map (\<lambda>r. (Some (resp_id r), Some (resp_name r))) rs =
              map (\<lambda>c. (call_id c, call_name c)) (filter has_name_and_id calls)
         \<and> map Some rs = map (response_of tools) (filter has_name_and_id calls)
         \<and> toolResponses (snd (handleToolCalls tools calls s)) =
              (if rs \<noteq> [] \<and> session s then toolResponses s @ [rs] else toolResponses s)))
   \<and> (fst (handleToolCalls tools calls s) \<noteq> None \<longrightarrow>
      toolResponses (snd (handleToolCalls tools calls s)) = toolResponses s)"
  using handleToolCalls_resolved_order [of tools calls s] handleToolCalls_rejected [of tools calls s]
  by blast

theorem handleToolCalls_preserves_order_witness:
  "fst (handleToolCalls tools_ok
      [mk_call ''b'' ''processPermissionRequest'',
       \<lparr>call_id = None, call_name = Some ''messageClaudeCode'', call_args = None\<rparr>,
       mk_call ''a'' ''unknownTool''] connected_state) = None
   \<and> (\<exists>rs. map (\<lambda>r. (Some (resp_id r), Some (resp_name r))) rs =
            [(Some ''b'', Some ''processPermissionRequest''), (Some ''a'', Some ''unknownTool'')]
        \<and> toolResponses (snd (handleToolCalls tools_ok
            [mk_call ''b'' ''processPermissionRequest'',
             \<lparr>call_id = None, call_name = Some ''messageClaudeCode'', call_args = None\<rparr>,
             mk_call ''a'' ''unknownTool''] connected_state)) = [rs])"
proof -
  define calls where "calls = [mk_call ''b'' ''processPermissionRequest'',
       \<lparr>call_id = None, call_name = Some ''messageClaudeCode'', call_args = None\<rparr>,
       mk_call ''a'' ''unknownTool'']"
  have h: "fst (handleToolCalls tools_ok calls connected_state) = None"
    by (simp add: calls_def handleToolCalls_def tools_ok_def mk_call_def connected_state_def
      has_name_and_id_def truthy_def run_tool_def is_known_tool_def args_or_empty_def Let_def)
  have f: "filter has_name_and_id calls =
      [mk_call ''b'' ''processPermissionRequest'', mk_call ''a'' ''unknownTool'']"
    by (simp add: calls_def mk_call_def has_name_and_id_def truthy_def)
  obtain rs where rs: "map (\<lambda>r. (Some (resp_id r), Some (resp_name r))) rs =
            map (\<lambda>c. (call_id c, call_name c)) (filter has_name_and_id calls)"
      "toolResponses (snd (handleToolCalls tools_ok calls connected_state)) =
          (if rs \<noteq> [] \<and> session connected_state
           then toolResponses connected_state @ [rs] else toolResponses connected_state)"
    using handleToolCalls_preserves_order [of tools_ok calls connected_state] h by blast
  have a: "map (\<lambda>r. (Some (resp_id r), Some (resp_name r))) rs =
            [(Some ''b'', Some ''processPermissionRequest''), (Some ''a'', Some ''unknownTool'')]"
    using rs(1) unfolding f by (simp add: mk_call_def)
  then have "rs \<noteq> []" by auto
  then have b: "toolResponses (snd (handleToolCalls tools_ok calls connected_state)) = [rs]"
    using rs(2) by (simp add: connected_state_def)
  have "\<exists>rs. map (\<lambda>r. (Some (resp_id r), Some (resp_name r))) rs =
            [(Some ''b'', Some ''processPermissionRequest''), (Some ''a'', Some ''unknownTool'')]
        \<and> toolResponses (snd (handleToolCalls tools_ok calls connected_state)) = [rs]"
    using a b by (intro exI [of _ rs] conjI)
  then show ?thesis
    using h unfolding calls_def by (intro conjI)
qed

section \<open>Properties of the native capture\<close>

lemma filter_update_length:
  "i < length xs \<Longrightarrow>
     length (filter Q (xs[i := y])) + (if Q (xs ! i) then 1 else 0)
       = length (filter Q xs) + (if Q y then 1 else 0)"
proof (induction xs arbitrary: i)
  case Nil
  then show ?case by simp
next
  case (Cons x xs)
  show ?case
  proof (cases i)
    case 0
    then show ?thesis by simp
  next
    case (Suc j)
    then have "j < length xs" using Cons.prems by simp
    from Cons.IH [OF this] show ?thesis using Suc by simp
  qed
qed

lemma set_stage_fields [simp]:
  "stopped (set_stage i st c) = stopped c"
  "pollInterval (set_stage i st c) = pollInterval c"
  "recording (set_stage i st c) = recording c"
  "recorders_made (set_stage i st c) = recorders_made c"
  "callbacks (set_stage i st c) = callbacks c"
  "length (ticks (set_stage i st c)) = length (ticks c)"
  "error_count (set_stage i st c) = error_count c"
  "data_count (set_stage i st c) = data_count c"
  by (simp_all add: set_stage_def error_count_def data_count_def)

lemma pending_reads_set_stage:
  "i < length (ticks c) \<Longrightarrow>
     pending_reads (set_stage i st c) + (if before_onData (ticks c ! i) then 1 else 0)
       = pending_reads c + (if before_onData st then 1 else 0)"
  unfolding pending_reads_def set_stage_def
  using filter_update_length [of i "ticks c" before_onData st] by simp

lemma poll_catch_stopped [simp]: "stopped c \<Longrightarrow> poll_catch opts e c = c"
  by (simp add: poll_catch_def)

lemma poll_catch_running:
  "\<not> stopped c \<Longrightarrow> has_onError opts \<Longrightarrow>
     poll_catch opts e c = c\<lparr>callbacks := callbacks c @ [OnError e]\<rparr>"
  by (simp add: poll_catch_def report_error_def)

lemma deliver_fields [simp]:
  "stopped (deliver b c) = stopped c"
  "pollInterval (deliver b c) = pollInterval c"
  "recording (deliver b c) = recording c"
  "recorders_made (deliver b c) = recorders_made c"
  "ticks (deliver b c) = ticks c"
  "error_count (deliver b c) = error_count c"
  by (simp_all add: deliver_def error_count_def is_error_event_def)

lemma data_count_deliver: "data_count (deliver b c) \<le> Suc (data_count c)"
  by (simp add: deliver_def data_count_def)

lemma pending_reads_deliver [simp]: "pending_reads (deliver b c) = pending_reads c"
  by (simp add: pending_reads_def)

text \<open>
  Once \<^verbatim>\<open>stop()\<close> has run, resuming a run of the callback never reaches \<^verbatim>\<open>onError\<close> and
  never starts a recorder; it calls \<^verbatim>\<open>onData\<close> at most once, and only if the run had not
  passed that call.
\<close>

lemma resume_after_stop:
  assumes st: "stopped c" and i: "i < length (ticks c)"
  shows "stopped (resume opts i (ticks c ! i) r c)"
    and "pollInterval (resume opts i (ticks c ! i) r c) = pollInterval c"
    and "error_count (resume opts i (ticks c ! i) r c) = error_count c"
    and "recorders_made (resume opts i (ticks c ! i) r c) = recorders_made c"
    and "length (ticks (resume opts i (ticks c ! i) r c)) = length (ticks c)"
    and "data_count (resume opts i (ticks c ! i) r c) + pending_reads (resume opts i (ticks c ! i) r c)
           \<le> data_count c + pending_reads c"
proof -
  let ?c' = "resume opts i (ticks c ! i) r c"
  have ps: "\<And>s. pending_reads (set_stage i s c) + (if before_onData (ticks c ! i) then 1 else 0)
       = pending_reads c + (if before_onData s then 1 else 0)"
    using pending_reads_set_stage [OF i] by simp
  have i': "\<And>b. i < length (ticks (deliver b c))" using i by simp
  have psd: "\<And>s b. pending_reads (set_stage i s (deliver b c))
         + (if before_onData (ticks c ! i) then 1 else 0)
       = pending_reads c + (if before_onData s then 1 else 0)"
    using pending_reads_set_stage [OF i'] by simp
  show "stopped ?c'"
    using st
    by (cases "ticks c ! i"; cases r)
       (simp_all add: tick_catch_def restart_section_def split: option.splits)
  show "pollInterval ?c' = pollInterval c"
    using st
    by (cases "ticks c ! i"; cases r)
       (simp_all add: tick_catch_def restart_section_def split: option.splits)
  show "error_count ?c' = error_count c"
    using st
    by (cases "ticks c ! i"; cases r)
       (simp_all add: tick_catch_def restart_section_def split: option.splits)
  show "recorders_made ?c' = recorders_made c"
    using st
    by (cases "ticks c ! i"; cases r)
       (simp_all add: tick_catch_def restart_section_def split: option.splits)
  show "length (ticks ?c') = length (ticks c)"
    using st
    by (cases "ticks c ! i"; cases r)
       (simp_all add: tick_catch_def restart_section_def split: option.splits)
  show "data_count ?c' + pending_reads ?c' \<le> data_count c + pending_reads c"
  proof (cases "ticks c ! i")
    case AwaitingStop
    then show ?thesis
      using st ps [of Returned] ps [of AwaitingRead]
      by (cases r)
         (simp_all add: tick_catch_def restart_section_def before_onData_def
            split: option.splits)
  next
    case AwaitingRead
    then show ?thesis
    proof (cases r)
      case (ReadDone b)
      have "pending_reads (set_stage i AwaitingDelete (deliver b c)) + 1 = pending_reads c"
        using psd [of AwaitingDelete b] AwaitingRead by (simp add: before_onData_def)
      then show ?thesis
        using AwaitingRead ReadDone data_count_deliver [of b c] by simp
    qed (use st ps [of Returned] in \<open>simp_all add: tick_catch_def before_onData_def\<close>)
  next
    case AwaitingDelete
    then show ?thesis
      using st ps [of Returned]
      by (cases r)
         (simp_all add: tick_catch_def restart_section_def before_onData_def
            split: option.splits)
  next
    case AwaitingPrepare
    then show ?thesis
      using st ps [of Returned]
      by (cases r)
         (simp_all add: tick_catch_def restart_section_def before_onData_def
            split: option.splits)
  next
    case Returned
    then show ?thesis by (cases r) simp_all
  qed
qed

lemma capture_step_after_stop:
  assumes st: "stopped c" and pi: "\<not> pollInterval c"
  shows "stopped (capture_step opts inp c)"
    and "\<not> pollInterval (capture_step opts inp c)"
    and "error_count (capture_step opts inp c) = error_count c"
    and "recorders_made (capture_step opts inp c) = recorders_made c"
    and "length (ticks (capture_step opts inp c)) = length (ticks c)"
    and "data_count (capture_step opts inp c) + pending_reads (capture_step opts inp c)
           \<le> data_count c + pending_reads c"
proof -
  have all: "stopped (capture_step opts inp c)
      \<and> \<not> pollInterval (capture_step opts inp c)
      \<and> error_count (capture_step opts inp c) = error_count c
      \<and> recorders_made (capture_step opts inp c) = recorders_made c
      \<and> length (ticks (capture_step opts inp c)) = length (ticks c)
      \<and> data_count (capture_step opts inp c) + pending_reads (capture_step opts inp c)
           \<le> data_count c + pending_reads c"
  proof (cases inp)
    case TimerFires
    then show ?thesis using st pi by simp
  next
    case (Settles i r)
    show ?thesis
    proof (cases "i < length (ticks c)")
      case True
      then have "capture_step opts inp c = resume opts i (ticks c ! i) r c"
        using Settles by simp
      then show ?thesis
        using resume_after_stop [OF st True, of opts r] pi by simp
    next
      case False
      then show ?thesis using Settles st pi by simp
    qed
  next
    case Stop
    then show ?thesis
      using st pi
      by (simp add: capture_stop_native_def error_count_def data_count_def pending_reads_def)
  qed
  then show "stopped (capture_step opts inp c)"
    and "\<not> pollInterval (capture_step opts inp c)"
    and "error_count (capture_step opts inp c) = error_count c"
    and "recorders_made (capture_step opts inp c) = recorders_made c"
    and "length (ticks (capture_step opts inp c)) = length (ticks c)"
    and "data_count (capture_step opts inp c) + pending_reads (capture_step opts inp c)
           \<le> data_count c + pending_reads c"
    by simp_all
qed

lemma capture_run_after_stop:
  "stopped c \<Longrightarrow> \<not> pollInterval c \<Longrightarrow>
     stopped (capture_run opts inputs c)
     \<and> \<not> pollInterval (capture_run opts inputs c)
     \<and> error_count (capture_run opts inputs c) = error_count c
     \<and> recorders_made (capture_run opts inputs c) = recorders_made c
     \<and> length (ticks (capture_run opts inputs c)) = length (ticks c)
     \<and> data_count (capture_run opts inputs c) + pending_reads (capture_run opts inputs c)
          \<le> data_count c + pending_reads c"
proof (induction inputs arbitrary: c)
  case Nil
  then show ?case by simp
next
  case (Cons inp inputs)
  note s = capture_step_after_stop [OF Cons.prems, of opts inp]
  from Cons.IH [OF s(1) s(2)] s(3-6) show ?case by simp
qed

text \<open>A capture error while the capture is not stopped: one call of \<^verbatim>\<open>onError\<close>, nothing else.\<close>

lemma resume_fault:
  assumes run: "\<not> stopped c" and i: "i < length (ticks c)"
    and fault: "settle_faults (ticks c ! i) r" and reg: "has_onError opts"
  shows "\<exists>e. resume opts i (ticks c ! i) r c
            = set_stage i Returned (c\<lparr>callbacks := callbacks c @ [OnError e]\<rparr>)"
proof -
  have pc: "\<And>e. tick_catch opts i e c
      = set_stage i Returned (c\<lparr>callbacks := callbacks c @ [OnError e]\<rparr>)"
    using poll_catch_running [OF run reg] by (simp add: tick_catch_def)
  show ?thesis
  proof (cases "ticks c ! i")
    case AwaitingStop
    show ?thesis
    proof (cases r)
      case (StopDone u ctor)
      then obtain e where "ctor = Some e" "\<not> truthy u"
        using fault AwaitingStop by (cases ctor) simp_all
      then show ?thesis
        using AwaitingStop StopDone run pc [of e]
        by (intro exI [of _ e]) (simp add: restart_section_def)
    qed (use fault AwaitingStop pc in auto)
  next
    case AwaitingRead
    then show ?thesis using fault pc by (cases r) auto
  next
    case AwaitingDelete
    show ?thesis
    proof (cases r)
      case (DeleteSettled ctor)
      then obtain e where "ctor = Some e"
        using fault AwaitingDelete by (cases ctor) simp_all
      then show ?thesis
        using AwaitingDelete DeleteSettled run pc [of e]
        by (intro exI [of _ e]) (simp add: restart_section_def)
    qed (use fault AwaitingDelete in auto)
  next
    case AwaitingPrepare
    show ?thesis
    proof (cases r)
      case (PrepareDone res)
      then obtain e where "res = Some e"
        using fault AwaitingPrepare by (cases res) simp_all
      then show ?thesis
        using AwaitingPrepare PrepareDone pc by (auto split: option.splits)
    qed (use fault AwaitingPrepare pc in auto)
  next
    case Returned
    then show ?thesis using fault by simp
  qed
qed

lemma capture_step_fault:
  assumes run: "\<not> stopped c" and i: "i < length (ticks c)"
    and fault: "settle_faults (ticks c ! i) r" and reg: "has_onError opts"
  shows "error_count (capture_step opts (Settles i r) c) = Suc (error_count c)"
    and "data_count (capture_step opts (Settles i r) c) = data_count c"
    and "\<not> stopped (capture_step opts (Settles i r) c)"
    and "pollInterval (capture_step opts (Settles i r) c) = pollInterval c"
    and "recording (capture_step opts (Settles i r) c) = recording c"
    and "ticks (capture_step opts (Settles i r) c) = (ticks c)[i := Returned]"
proof -
  obtain e where e: "capture_step opts (Settles i r) c
      = set_stage i Returned (c\<lparr>callbacks := callbacks c @ [OnError e]\<rparr>)"
    using resume_fault [OF assms] i by auto
  show "error_count (capture_step opts (Settles i r) c) = Suc (error_count c)"
    and "data_count (capture_step opts (Settles i r) c) = data_count c"
    and "\<not> stopped (capture_step opts (Settles i r) c)"
    and "pollInterval (capture_step opts (Settles i r) c) = pollInterval c"
    and "recording (capture_step opts (Settles i r) c) = recording c"
    and "ticks (capture_step opts (Settles i r) c) = (ticks c)[i := Returned]"
    unfolding e using run
    by (simp_all add: error_count_def data_count_def is_error_event_def set_stage_def)
qed

text \<open>Nothing but \<^verbatim>\<open>stop()\<close> sets \<^verbatim>\<open>stopped\<close>.\<close>

lemma resume_keeps_stopped: "stopped (resume opts i stage r c) = stopped c"
  by (cases stage; cases r)
     (simp_all add: tick_catch_def restart_section_def poll_catch_def report_error_def
        new_recorder_def split: option.splits)

lemma capture_step_keeps_stopped:
  "inp \<noteq> Stop \<Longrightarrow> stopped (capture_step opts inp c) = stopped c"
  by (cases inp) (simp_all add: timer_fires_def resume_keeps_stopped)

text \<open>
  A run of the callback that the timer starts just before \<^verbatim>\<open>stop()\<close> still delivers its
  segment after \<^verbatim>\<open>stop()\<close>.
\<close>

lemma data_after_stop:
  assumes "\<not> stopped c" and "pollInterval c" and "recording c \<noteq> None"
    and "truthy u" and "base64 \<noteq> []"
  shows "callbacks (capture_run opts
           [TimerFires, Stop, Settles (length (ticks c)) (StopDone u ctor),
            Settles (length (ticks c)) (ReadDone base64)] c)
         = callbacks c @ [OnData base64]"
  using assms
  by (simp add: timer_fires_def capture_stop_native_def set_stage_def deliver_def nth_append)

text \<open>
  The running state is the one \<^verbatim>\<open>start()\<close> leaves when its two awaited calls, the
  constructor and \<^verbatim>\<open>record()\<close> succeed.
\<close>

lemma start_reaches_running:
  "start_call idle_capture = (StartAwaits AwaitingAudioMode, idle_capture)"
  "start_resume opts AwaitingAudioMode (AudioModeDone None) idle_capture
     = (StartAwaits AwaitingFirstPrepare, new_recorder idle_capture)"
  "start_resume opts AwaitingFirstPrepare (FirstPrepareDone None) (new_recorder idle_capture)
     = (StartResolved, running_capture)"
  by (simp_all add: start_call_def idle_capture_def new_recorder_def running_capture_def)

text \<open>
  C3, as stated, fails. From the running state, two runs of the poll callback in which
  \<^verbatim>\<open>currentRecording.stop()\<close> rejects invoke the error callback twice; the pipeline is not
  stopped and the interval stays armed, and a third run invokes the data callback.
\<close>

theorem capture_error_counterexample:
  "callbacks (capture_run with_onError
       [TimerFires, Settles 0 (Rejected device_fault),
        TimerFires, Settles 1 (Rejected device_fault),
        TimerFires, Settles 2 (StopDone segment_uri None), Settles 2 (ReadDone ''AAAA'')]
       running_capture)
     = [OnError device_fault, OnError device_fault, OnData ''AAAA'']
   \<and> \<not> stopped (capture_run with_onError
       [TimerFires, Settles 0 (Rejected device_fault),
        TimerFires, Settles 1 (Rejected device_fault),
        TimerFires, Settles 2 (StopDone segment_uri None), Settles 2 (ReadDone ''AAAA'')]
       running_capture)
   \<and> pollInterval (capture_run with_onError
       [TimerFires, Settles 0 (Rejected device_fault),
        TimerFires, Settles 1 (Rejected device_fault),
        TimerFires, Settles 2 (StopDone segment_uri None), Settles 2 (ReadDone ''AAAA'')]
       running_capture)"
  by (simp add: running_capture_def with_onError_def device_fault_def segment_uri_def
      timer_fires_def tick_catch_def poll_catch_def report_error_def set_stage_def
      deliver_def truthy_def)

text \<open>
  C3, amended: for a capture session in the running state (not stopped, interval armed,
  a recorder set), a capture error in a run of the poll callback invokes the registered
  error callback exactly once for that run, invokes no data callback, and leaves the
  pipeline running: it is not stopped and the poll interval stays armed, so later runs can
  invoke the error callback again and the data callback again. Only \<^verbatim>\<open>stop()\<close> transitions
  the pipeline to stopped: no firing of the timer and no settlement does. After \<^verbatim>\<open>stop()\<close>, whatever timer firings, settlements and stops
  follow (\<^verbatim>\<open>start()\<close> not being called again), the error callback is never invoked again,
  no run of the callback is started and no recorder is made; the data callback is invoked
  at most once for each run that was suspended before its call of \<^verbatim>\<open>onData\<close> when
  \<^verbatim>\<open>stop()\<close> was called, and such a run does deliver its data after \<^verbatim>\<open>stop()\<close> when its
  segment is read successfully.
\<close>

theorem capture_error_keeps_running:
  assumes "\<not> stopped c" and "pollInterval c" and "recording c \<noteq> None"
    and "has_onError opts"
    and "i < length (ticks c)" and "settle_faults (ticks c ! i) r"
    and "truthy u" and "base64 \<noteq> []"
  shows "error_count (capture_step opts (Settles i r) c) = Suc (error_count c)
     \<and> data_count (capture_step opts (Settles i r) c) = data_count c
     \<and> \<not> stopped (capture_step opts (Settles i r) c)
     \<and> pollInterval (capture_step opts (Settles i r) c)
     \<and> recording (capture_step opts (Settles i r) c) \<noteq> None
     \<and> (inp \<noteq> Stop \<longrightarrow> \<not> stopped (capture_step opts inp c))
     \<and> stopped (capture_step opts Stop c)
     \<and> stopped (capture_run opts inputs (capture_step opts Stop c))
     \<and> error_count (capture_run opts inputs (capture_step opts Stop c)) = error_count c
     \<and> length (ticks (capture_run opts inputs (capture_step opts Stop c))) = length (ticks c)
     \<and> recorders_made (capture_run opts inputs (capture_step opts Stop c)) = recorders_made c
     \<and> data_count (capture_run opts inputs (capture_step opts Stop c))
          \<le> data_count c + pending_reads c
     \<and> callbacks (capture_run opts
           [TimerFires, Stop, Settles (length (ticks c)) (StopDone u ctor),
            Settles (length (ticks c)) (ReadDone base64)] c)
         = callbacks c @ [OnData base64]"
proof -
  note f = capture_step_fault [OF assms(1) assms(5) assms(6) assms(4)]
  define c' where "c' = capture_step opts Stop c"
  have c': "stopped c'" "\<not> pollInterval c'" "error_count c' = error_count c"
    "length (ticks c') = length (ticks c)" "recorders_made c' = recorders_made c"
    "data_count c' = data_count c" "pending_reads c' = pending_reads c"
    by (simp_all add: c'_def capture_stop_native_def error_count_def data_count_def
        pending_reads_def)
  note a = capture_run_after_stop [OF c'(1,2), of opts inputs]
  have bound: "data_count (capture_run opts inputs c') \<le> data_count c + pending_reads c"
    using a c'(6,7) by linarith
  note d = data_after_stop [OF assms(1) assms(2) assms(3) assms(7) assms(8), of opts ctor]
  have k: "inp \<noteq> Stop \<longrightarrow> \<not> stopped (capture_step opts inp c)"
    using capture_step_keeps_stopped [of inp opts c] assms(1) by simp
  show ?thesis
    unfolding c'_def [symmetric]
    using f assms(2) assms(3) c' a bound d k by simp
qed

theorem capture_error_keeps_running_witness:
  "error_count (capture_run with_onError
       [TimerFires, Settles 0 (Rejected device_fault)] running_capture) = 1
   \<and> \<not> stopped (capture_run with_onError
       [TimerFires, Settles 0 (Rejected device_fault)] running_capture)
   \<and> pollInterval (capture_run with_onError
       [TimerFires, Settles 0 (Rejected device_fault)] running_capture)
   \<and> \<not> stopped (capture_run with_onError [TimerFires, TimerFires] running_capture)
   \<and> stopped (capture_run with_onError [TimerFires, Stop] running_capture)
   \<and> error_count (capture_run with_onError
       [TimerFires, Stop, Settles 0 (Rejected device_fault)] running_capture) = 0
   \<and> data_count (capture_run with_onError
       [TimerFires, Stop, Settles 0 (Rejected device_fault)] running_capture) \<le> 1
   \<and> callbacks (capture_run with_onError
       [TimerFires, TimerFires, Stop, Settles 1 (StopDone segment_uri None),
        Settles 1 (ReadDone ''AAAA'')] running_capture) = [OnData ''AAAA'']"
proof -
  define c where "c = capture_step with_onError TimerFires running_capture"
  have c: "c = running_capture\<lparr>ticks := [AwaitingStop]\<rparr>"
    by (simp add: c_def running_capture_def timer_fires_def)
  have h1: "\<not> stopped c" and h2: "pollInterval c" and h3: "recording c \<noteq> None"
    by (simp_all add: c running_capture_def)
  have h4: "has_onError with_onError" by (simp add: with_onError_def)
  have h5: "0 < length (ticks c)" by (simp add: c)
  have h6: "settle_faults (ticks c ! 0) (Rejected device_fault)" by (simp add: c)
  have h7: "truthy segment_uri" by (simp add: segment_uri_def truthy_def)
  have h8: "''AAAA'' \<noteq> []" by simp
  have e0: "error_count c = 0" "data_count c = 0" "pending_reads c = 1"
    "callbacks c = []" "length (ticks c) = 1"
    by (simp_all add: c error_count_def data_count_def pending_reads_def
        before_onData_def running_capture_def)
  have r1: "capture_run with_onError [TimerFires, Settles 0 (Rejected device_fault)]
        running_capture
      = capture_step with_onError (Settles 0 (Rejected device_fault)) c"
    by (simp add: c_def)
  have r2: "capture_run with_onError [TimerFires, Stop] running_capture
      = capture_step with_onError Stop c"
    by (simp add: c_def)
  have r3: "capture_run with_onError [TimerFires, Stop, Settles 0 (Rejected device_fault)]
        running_capture
      = capture_run with_onError [Settles 0 (Rejected device_fault)]
          (capture_step with_onError Stop c)"
    by (simp add: c_def)
  have r4: "capture_run with_onError
        [TimerFires, TimerFires, Stop, Settles 1 (StopDone segment_uri None),
         Settles 1 (ReadDone ''AAAA'')] running_capture
      = capture_run with_onError
        [TimerFires, Stop, Settles 1 (StopDone segment_uri None),
         Settles 1 (ReadDone ''AAAA'')] c"
    by (simp add: c_def)
  have r5: "capture_run with_onError [TimerFires, TimerFires] running_capture
      = capture_step with_onError TimerFires c"
    by (simp add: c_def)
  have h9: "TimerFires \<noteq> Stop" by simp
  note t = capture_error_keeps_running [OF h1 h2 h3 h4 h5 h6 h7 h8,
      of TimerFires "[Settles 0 (Rejected device_fault)]" None]
  show ?thesis
    unfolding r1 r2 r3 r4 r5
    using t e0 h9 by (simp del: capture_step.simps capture_run.simps)
qed

section \<open>Properties of the PCM codec\<close>

lemma int16_of_bytes:
  "(ucast (ucast w :: byte) :: 16 word) OR push_bit 8 (ucast (ucast (drop_bit 8 w) :: byte)) = w"
  by (rule bit_word_eqI) (auto simp: bit_simps)

lemma int16_view_buffer_bytes: "int16_view (int16_buffer_bytes ws) = ws"
  by (induction ws) (simp_all add: int16_buffer_bytes_def bytes_of_u16_def int16_of_bytes)

lemma length_int16_buffer_bytes: "length (int16_buffer_bytes ws) = 2 * length ws"
  by (induction ws) (simp_all add: int16_buffer_bytes_def)

lemma clamp_unit_range: "- 1 \<le> clamp_unit x \<and> clamp_unit x \<le> 1"
  by (simp add: clamp_unit_def)

lemma clamp_unit_idem: "clamp_unit (clamp_unit x) = clamp_unit x"
  by (simp add: clamp_unit_def)

lemma clamp_unit_id: "- 1 \<le> x \<Longrightarrow> x \<le> 1 \<Longrightarrow> clamp_unit x = x"
  by (simp add: clamp_unit_def)

lemma scale_sample_clamp: "scale_sample (clamp_unit x) = scale_sample x"
  by (simp add: scale_sample_def clamp_unit_idem)

lemma scale_sample_range: "- 32768 \<le> scale_sample x \<and> scale_sample x \<le> 32767"
proof -
  have r: "- 1 \<le> clamp_unit x" "clamp_unit x \<le> 1" using clamp_unit_range by auto
  show ?thesis
  proof (cases "clamp_unit x < 0")
    case True
    then show ?thesis using r by (simp add: scale_sample_def)
  next
    case False
    then show ?thesis using r by (simp add: scale_sample_def)
  qed
qed

lemma js_trunc_range:
  assumes "- 32768 \<le> y" "y \<le> 32767"
  shows "- 32768 \<le> js_trunc y \<and> js_trunc y \<le> 32767"
proof (cases "y < 0")
  case True
  have j: "js_trunc y = - \<lfloor>- y\<rfloor>" using True by (simp add: js_trunc_def)
  have a: "\<lfloor>- y\<rfloor> \<le> 32768"
  proof -
    have "- y \<le> of_int 32768" using assms(1) by simp
    then show ?thesis by (simp add: floor_le_iff)
  qed
  have b: "0 \<le> \<lfloor>- y\<rfloor>" using True by simp
  show ?thesis unfolding j using a b by linarith
next
  case False
  have j: "js_trunc y = \<lfloor>y\<rfloor>" using False by (simp add: js_trunc_def)
  have a: "\<lfloor>y\<rfloor> \<le> 32767"
  proof -
    have "y < of_int 32767 + 1" using assms(2) by simp
    then show ?thesis by (simp add: floor_le_iff)
  qed
  have b: "0 \<le> \<lfloor>y\<rfloor>" using False by simp
  show ?thesis unfolding j using a b by linarith
qed

lemma sint_to_int16:
  assumes "- 32768 \<le> js_trunc y" "js_trunc y \<le> 32767"
  shows "sint (to_int16 y) = js_trunc y"
proof -
  have "signed_take_bit 15 (js_trunc y) = js_trunc y"
    using assms by (intro signed_take_bit_int_eq_self) simp_all
  then show ?thesis by (simp add: to_int16_def sint_sbintrunc')
qed

lemma sint_pcm16_of_sample:
  "sint (pcm16_of_sample (Num x)) = js_trunc (scale_sample x)"
  using scale_sample_range [of x] js_trunc_range [of "scale_sample x"]
  by (simp add: sint_to_int16)

text \<open>What one sample decodes to after it was encoded: the 16-bit value over \<open>32768\<close>.\<close>

lemma round_trip_error:
  fixes x :: rat
  assumes "- 1 \<le> x" "x \<le> 1"
  defines "d \<equiv> of_int (js_trunc (scale_sample x)) / 32768"
  shows "\<bar>d - x\<bar> < 2 / 32768"
    and "x \<le> 0 \<Longrightarrow> \<bar>d - x\<bar> < 1 / 32768"
    and "0 \<le> x \<Longrightarrow> d \<le> x \<and> x - d < (1 + x) / 32768"
proof -
  have c: "clamp_unit x = x" using assms(1,2) by (rule clamp_unit_id)
  have neg: "x < 0 \<Longrightarrow> x \<le> d \<and> d - x < 1 / 32768"
  proof -
    assume n: "x < 0"
    define y where "y = - (x * 32768)"
    have s: "scale_sample x = - y" using n c by (simp add: scale_sample_def y_def)
    have "- y < 0" using n by (simp add: y_def)
    then have j: "js_trunc (- y) = - \<lfloor>y\<rfloor>" by (simp add: js_trunc_def)
    define f where "f = rat_of_int \<lfloor>y\<rfloor>"
    have f1: "f \<le> y" unfolding f_def by (rule of_int_floor_le)
    have f2: "y < f + 1" unfolding f_def using floor_correct [of y] by simp
    have dd: "d = - f / 32768" unfolding d_def s j f_def by simp
    have xx: "x = - y / 32768" by (simp add: y_def)
    have "x \<le> - f / 32768" unfolding xx using f1 by (simp add: divide_right_mono)
    moreover have "- f / 32768 - x < 1 / 32768"
    proof -
      have "- f / 32768 - x = (y - f) / 32768" unfolding xx by (simp add: field_simps)
      moreover have "(y - f) / 32768 < 1 / 32768"
        using f2 by (intro divide_strict_right_mono) simp_all
      ultimately show ?thesis by simp
    qed
    ultimately show "x \<le> d \<and> d - x < 1 / 32768"
      unfolding dd by blast
  qed
  have pos: "0 \<le> x \<Longrightarrow> d \<le> x \<and> x - d < (1 + x) / 32768"
  proof -
    assume p: "0 \<le> x"
    define y where "y = x * 32767"
    have s: "scale_sample x = y" using p c by (simp add: scale_sample_def y_def)
    have "\<not> y < 0" using p by (simp add: y_def)
    then have j: "js_trunc y = \<lfloor>y\<rfloor>" by (simp add: js_trunc_def)
    define f where "f = rat_of_int \<lfloor>y\<rfloor>"
    have f1: "f \<le> y" unfolding f_def by (rule of_int_floor_le)
    have f2: "y < f + 1" unfolding f_def using floor_correct [of y] by simp
    have dd: "d = f / 32768" unfolding d_def s j f_def by simp
    have "f \<le> x * 32768" using f1 p unfolding y_def by linarith
    then have a: "f / 32768 \<le> x" by (simp add: field_simps)
    have "x * 32768 - f < 1 + x" using f2 unfolding y_def by linarith
    then have b: "x - f / 32768 < (1 + x) / 32768" by (simp add: field_simps)
    show "d \<le> x \<and> x - d < (1 + x) / 32768"
      unfolding dd using a b by blast
  qed
  show "0 \<le> x \<Longrightarrow> d \<le> x \<and> x - d < (1 + x) / 32768" by (rule pos)
  show "x \<le> 0 \<Longrightarrow> \<bar>d - x\<bar> < 1 / 32768"
  proof -
    assume le: "x \<le> 0"
    show "\<bar>d - x\<bar> < 1 / 32768"
    proof (cases "x < 0")
      case True
      then show ?thesis using neg by simp
    next
      case False
      then have "x = 0" using le by simp
      then show ?thesis using pos by simp
    qed
  qed
  show "\<bar>d - x\<bar> < 2 / 32768"
  proof (cases "x < 0")
    case True
    then show ?thesis using neg by simp
  next
    case False
    then have p: "0 \<le> x" by simp
    have "x - d < (1 + x) / 32768" "d \<le> x" using pos [OF p] by simp_all
    moreover have "(1 + x) / 32768 \<le> 2 / 32768" using assms(2) by simp
    ultimately show ?thesis by simp
  qed
qed

lemma base64PCM16ToFloat32_of_encoded:
  assumes "atob (btoa (int16_buffer_bytes ws)) = Some (int16_buffer_bytes ws)"
  shows "base64PCM16ToFloat32 atob (btoa (int16_buffer_bytes ws)) =
           Inr (map (\<lambda>w. Num (of_int (sint w) / 0x8000)) ws)"
  using assms
  by (simp add: base64PCM16ToFloat32_def length_int16_buffer_bytes int16_view_buffer_bytes)

text \<open>The reference base64 decoder inverts the reference encoder on every byte list.\<close>

lemma index_of_nth:
  "distinct xs \<Longrightarrow> i < length xs \<Longrightarrow> index_of (xs ! i) xs = Some i"
proof (induction xs arbitrary: i)
  case Nil
  then show ?case by simp
next
  case (Cons y ys)
  show ?case
  proof (cases i)
    case 0
    then show ?thesis by simp
  next
    case (Suc j)
    then have j: "j < length ys" using Cons.prems by simp
    have "ys ! j \<noteq> y" using Cons.prems(1) j by auto
    then show ?thesis using Suc Cons.IH [of j] Cons.prems(1) j by simp
  qed
qed

lemma distinct_base64_alphabet: "distinct base64_alphabet"
  by (simp add: base64_alphabet_def)

lemma length_base64_alphabet: "length base64_alphabet = 64"
  by (simp add: base64_alphabet_def)

lemma index_of_b64_char: "i < 64 \<Longrightarrow> index_of (b64_char i) base64_alphabet = Some i"
  unfolding b64_char_def
  by (rule index_of_nth [OF distinct_base64_alphabet]) (simp add: length_base64_alphabet)

lemma b64_char_not_pad: "i < 64 \<Longrightarrow> b64_char i \<noteq> CHR ''=''"
proof -
  assume i: "i < 64"
  have "CHR ''='' \<notin> set base64_alphabet" by (simp add: base64_alphabet_def)
  moreover have "b64_char i \<in> set base64_alphabet"
    unfolding b64_char_def using i by (simp add: length_base64_alphabet)
  ultimately show ?thesis by metis
qed

lemma byte_lt: "unat (a :: byte) < 256"
  using unsigned_less [of a, where ?'a = nat] by simp

lemma div_of_digits: "r < m \<Longrightarrow> (q * m + r) div m = (q::nat)"
  by simp

lemma mod_of_digits: "r < m \<Longrightarrow> (q * m + r) mod m = (r::nat)"
  by simp

lemma base64_bounds:
  fixes x y z :: nat
  assumes "x < 256" "y < 256" "z < 256"
  shows "x div 4 < 64" "x mod 4 * 16 + y div 16 < 64" "y mod 16 * 4 + z div 64 < 64"
    "z mod 64 < 64" "x mod 4 * 16 < 64" "y mod 16 * 4 < 64"
proof -
  have a: "x mod 4 < 4" "y mod 16 < 16" "z mod 64 < 64" by simp_all
  have b: "x div 4 < 64" "y div 16 < 16" "z div 64 < 4"
    using assms by (simp_all add: less_mult_imp_div_less)
  show "x div 4 < 64" by (rule b(1))
  show "x mod 4 * 16 + y div 16 < 64" using a(1) b(2) by linarith
  show "y mod 16 * 4 + z div 64 < 64" using a(2) b(3) by linarith
  show "z mod 64 < 64" by (rule a(3))
  show "x mod 4 * 16 < 64" using a(1) by linarith
  show "y mod 16 * 4 < 64" using a(2) by linarith
qed

lemma base64_regroup:
  fixes x y z :: nat
  assumes "x < 256" "y < 256" "z < 256"
  shows "x div 4 * 4 + (x mod 4 * 16 + y div 16) div 16 = x"
    "(x mod 4 * 16 + y div 16) mod 16 * 16 + (y mod 16 * 4 + z div 64) div 4 = y"
    "(y mod 16 * 4 + z div 64) mod 4 * 64 + z mod 64 = z"
    "x div 4 * 4 + (x mod 4 * 16) div 16 = x"
    "(x mod 4 * 16 + y div 16) mod 16 * 16 + (y mod 16 * 4) div 4 = y"
proof -
  have b: "y div 16 < 16" "z div 64 < 4"
    using assms by (simp_all add: less_mult_imp_div_less)
  have d1: "(x mod 4 * 16 + y div 16) div 16 = x mod 4" using b(1) by (rule div_of_digits)
  have m1: "(x mod 4 * 16 + y div 16) mod 16 = y div 16" using b(1) by (rule mod_of_digits)
  have d2: "(y mod 16 * 4 + z div 64) div 4 = y mod 16" using b(2) by (rule div_of_digits)
  have m2: "(y mod 16 * 4 + z div 64) mod 4 = z div 64" using b(2) by (rule mod_of_digits)
  show "x div 4 * 4 + (x mod 4 * 16 + y div 16) div 16 = x" unfolding d1 by simp
  show "(x mod 4 * 16 + y div 16) mod 16 * 16 + (y mod 16 * 4 + z div 64) div 4 = y"
    unfolding m1 d2 by simp
  show "(y mod 16 * 4 + z div 64) mod 4 * 64 + z mod 64 = z" unfolding m2 by simp
  show "x div 4 * 4 + (x mod 4 * 16) div 16 = x" by simp
  show "(x mod 4 * 16 + y div 16) mod 16 * 16 + (y mod 16 * 4) div 4 = y" unfolding m1 by simp
qed


lemma of_nat_unat_byte: "of_nat (unat (a :: byte)) = a"
  by simp

lemma append_three: "(@) [u, v, w] = (\<lambda>bs. u # v # w # bs)"
  by (rule ext) simp

lemma base64_decode_group:
  assumes "i1 < 64" "i2 < 64" "i3 < 64" "i4 < 64"
  shows "base64_decode (b64_char i1 # b64_char i2 # b64_char i3 # b64_char i4 # rest) =
           map_option (\<lambda>bs. [of_nat (i1 * 4 + i2 div 16), of_nat (i2 mod 16 * 16 + i3 div 4),
                                of_nat (i3 mod 4 * 64 + i4)] @ bs) (base64_decode rest)"
  using assms
  by (simp add: index_of_b64_char b64_char_not_pad append_three del: of_nat_add of_nat_mult)

lemma base64_decode_last2:
  assumes "i1 < 64" "i2 < 64" "i3 < 64"
  shows "base64_decode [b64_char i1, b64_char i2, b64_char i3, CHR ''=''] =
           Some [of_nat (i1 * 4 + i2 div 16), of_nat (i2 mod 16 * 16 + i3 div 4)]"
  using assms
  by (simp add: index_of_b64_char b64_char_not_pad del: of_nat_add of_nat_mult)

lemma base64_decode_last1:
  assumes "i1 < 64" "i2 < 64"
  shows "base64_decode [b64_char i1, b64_char i2, CHR ''='', CHR ''=''] =
           Some [of_nat (i1 * 4 + i2 div 16)]"
  using assms
  by (simp add: index_of_b64_char del: of_nat_add of_nat_mult)

lemma base64_round_trip: "base64_decode (base64_encode bs) = Some bs"
proof (induction bs rule: base64_encode.induct)
  case 1
  show ?case by simp
next
  case (2 a)
  note x = byte_lt [of a]
  show ?case
    unfolding base64_encode.simps Let_def
    by (simp only: base64_decode_last1 [OF base64_bounds(1) [OF x x x] base64_bounds(5) [OF x x x]]
        base64_regroup(4) [OF x x x] of_nat_unat_byte)
next
  case (3 a b)
  note x = byte_lt [of a] and y = byte_lt [of b]
  show ?case
    unfolding base64_encode.simps Let_def
    by (simp only: base64_decode_last2 [OF base64_bounds(1) [OF x y y] base64_bounds(2) [OF x y y]
          base64_bounds(6) [OF x y y]]
        base64_regroup(1) [OF x y y] base64_regroup(5) [OF x y y] of_nat_unat_byte)
next
  case (4 a b c rest)
  note x = byte_lt [of a] and y = byte_lt [of b] and z = byte_lt [of c]
  show ?case
    unfolding base64_encode.simps Let_def append_Cons append_Nil
    by (simp only: base64_decode_group [OF base64_bounds(1) [OF x y z] base64_bounds(2) [OF x y z]
          base64_bounds(3) [OF x y z] base64_bounds(4) [OF x y z]]
        base64_regroup(1,2,3) [OF x y z] of_nat_unat_byte "4.IH") simp
qed

lemma encode_near_one:
  "int16_buffer_bytes (map pcm16_of_sample [Num (131071 / 131072)]) = [254, 127]"
proof -
  have sc: "scale_sample (131071 / 131072) = 4294803457 / 131072"
    by (simp add: scale_sample_def clamp_unit_def)
  have fl: "\<lfloor>4294803457 / 131072 :: rat\<rfloor> = 32766"
    by (simp add: floor_eq_iff)
  have tr: "js_trunc (4294803457 / 131072) = 32766"
    using fl by (simp add: js_trunc_def)
  have "pcm16_of_sample (Num (131071 / 131072)) = 32766"
    by (simp add: sc to_int16_def tr)
  then show ?thesis
    by (simp add: int16_buffer_bytes_def bytes_of_u16_def)
qed

lemma base64_encode_near_one: "base64_encode [254, 127] = ''/n8=''"
  by (simp add: b64_char_def base64_alphabet_def)

lemma base64_decode_near_one: "base64_decode ''/n8='' = Some [254, 127]"
  by (simp add: base64_alphabet_def)

text \<open>
  C5, as stated, fails: the sample \<open>1 - 2^-17\<close>, which lies in \<open>[-1,1]\<close> and is a single
  precision number, is encoded as 32766 and decoded as \<open>32766/32768\<close>, which is \<open>1.75\<close>
  quantization steps away from it.
\<close>

theorem codec_round_trip_counterexample:
  "- 1 \<le> (131071 / 131072 :: rat) \<and> (131071 / 131072 :: rat) \<le> 1
   \<and> base64PCM16ToFloat32 base64_decode
        (float32ToBase64PCM16 base64_encode [Num (131071 / 131072)]) = Inr [Num (32766 / 32768)]
   \<and> \<not> \<bar>32766 / 32768 - 131071 / 131072 :: rat\<bar> \<le> 1 / 32768"
proof -
  have "base64PCM16ToFloat32 base64_decode
        (float32ToBase64PCM16 base64_encode [Num (131071 / 131072)]) = Inr [Num (32766 / 32768)]"
    unfolding float32ToBase64PCM16_def encode_near_one base64_encode_near_one
      base64PCM16ToFloat32_def base64_decode_near_one
    by simp
  then show ?thesis by simp
qed

text \<open>
  C5, amended: for samples in \<open>[-1,1]\<close>, decoding the transport encoding (with a base64
  decoder that inverts the encoder on the bytes sent) yields, sample by sample, a value
  within two quantization steps of the sample: \<open>|d - s| < 2/32768\<close>. For \<open>s \<le> 0\<close> it is
  within one step (\<open>|d - s| < 1/32768\<close>); for \<open>s \<ge> 0\<close> the decoded value is not above the
  sample and the error is below \<open>(1 + s)/32768\<close>. The scaled value is truncated, not rounded.
\<close>

theorem codec_round_trip:
  assumes inv: "atob (btoa (int16_buffer_bytes (map pcm16_of_sample (map Num xs))))
      = Some (int16_buffer_bytes (map pcm16_of_sample (map Num xs)))"
    and range: "\<forall>x \<in> set xs. - 1 \<le> x \<and> x \<le> 1"
  shows "\<exists>ds. base64PCM16ToFloat32 atob (float32ToBase64PCM16 btoa (map Num xs)) = Inr (map Num ds)
     \<and> length ds = length xs
     \<and> (\<forall>i < length xs.
           \<bar>ds ! i - xs ! i\<bar> < 2 / 32768
           \<and> (xs ! i \<le> 0 \<longrightarrow> \<bar>ds ! i - xs ! i\<bar> < 1 / 32768)
           \<and> (0 \<le> xs ! i \<longrightarrow> ds ! i \<le> xs ! i \<and> xs ! i - ds ! i < (1 + xs ! i) / 32768))"
proof -
  define ds where "ds = map (\<lambda>x. rat_of_int (js_trunc (scale_sample x)) / 32768) xs"
  have dec: "base64PCM16ToFloat32 atob (float32ToBase64PCM16 btoa (map Num xs)) =
      Inr (map (\<lambda>w. Num (of_int (sint w) / 0x8000)) (map pcm16_of_sample (map Num xs)))"
    unfolding float32ToBase64PCM16_def
    by (rule base64PCM16ToFloat32_of_encoded
        [of atob btoa "map pcm16_of_sample (map Num xs)", OF inv])
  have "map (\<lambda>w. Num (of_int (sint w) / 0x8000)) (map pcm16_of_sample (map Num xs)) =
      map (\<lambda>x. Num (of_int (sint (pcm16_of_sample (Num x))) / 0x8000)) xs"
    by (simp only: map_map comp_def)
  also have "\<dots> = map (\<lambda>x. Num (rat_of_int (js_trunc (scale_sample x)) / 32768)) xs"
    by (simp only: sint_pcm16_of_sample)
  also have "\<dots> = map Num ds"
    by (simp only: ds_def map_map comp_def)
  finally have "map (\<lambda>w. Num (of_int (sint w) / 0x8000)) (map pcm16_of_sample (map Num xs))
      = map Num ds" .
  then have a: "base64PCM16ToFloat32 atob (float32ToBase64PCM16 btoa (map Num xs)) = Inr (map Num ds)"
    using dec by simp
  have b: "length ds = length xs" by (simp add: ds_def)
  have c: "\<forall>i < length xs.
           \<bar>ds ! i - xs ! i\<bar> < 2 / 32768
           \<and> (xs ! i \<le> 0 \<longrightarrow> \<bar>ds ! i - xs ! i\<bar> < 1 / 32768)
           \<and> (0 \<le> xs ! i \<longrightarrow> ds ! i \<le> xs ! i \<and> xs ! i - ds ! i < (1 + xs ! i) / 32768)"
  proof (intro allI impI)
    fix i assume i: "i < length xs"
    have r: "- 1 \<le> xs ! i" "xs ! i \<le> 1" using range i by simp_all
    have d: "ds ! i = rat_of_int (js_trunc (scale_sample (xs ! i))) / 32768"
      using i by (simp add: ds_def)
    show "\<bar>ds ! i - xs ! i\<bar> < 2 / 32768
           \<and> (xs ! i \<le> 0 \<longrightarrow> \<bar>ds ! i - xs ! i\<bar> < 1 / 32768)
           \<and> (0 \<le> xs ! i \<longrightarrow> ds ! i \<le> xs ! i \<and> xs ! i - ds ! i < (1 + xs ! i) / 32768)"
      unfolding d using round_trip_error [OF r] by blast
  qed
  from a b c show ?thesis by blast
qed

theorem codec_round_trip_witness:
  "\<exists>ds. base64PCM16ToFloat32 base64_decode
          (float32ToBase64PCM16 base64_encode (map Num [131071 / 131072])) = Inr (map Num ds)
     \<and> length ds = 1 \<and> \<bar>ds ! 0 - 131071 / 131072\<bar> < 2 / 32768"
proof -
  have inv: "base64_decode (base64_encode
        (int16_buffer_bytes (map pcm16_of_sample (map Num [131071 / 131072]))))
      = Some (int16_buffer_bytes (map pcm16_of_sample (map Num [131071 / 131072])))"
    by (rule base64_round_trip)
  have range: "\<forall>x \<in> set [131071 / 131072 :: rat]. - 1 \<le> x \<and> x \<le> 1" by simp
  obtain ds where ds: "base64PCM16ToFloat32 base64_decode
          (float32ToBase64PCM16 base64_encode (map Num [131071 / 131072])) = Inr (map Num ds)"
      "length ds = length [131071 / 131072 :: rat]"
      "\<forall>i < length [131071 / 131072 :: rat].
           \<bar>ds ! i - [131071 / 131072] ! i\<bar> < 2 / 32768"
    using codec_round_trip [of base64_decode base64_encode "[131071 / 131072]", OF inv range]
    by blast
  have l: "length ds = 1" using ds(2) by simp
  have e: "\<bar>ds ! 0 - 131071 / 131072\<bar> < 2 / 32768" using ds(3) by simp
  show ?thesis using ds(1) l e by (intro exI [of _ ds] conjI)
qed

text \<open>
  C9: the transport encoder is total on finite samples and clamps before it scales. For every
  finite sample the scaled and truncated value lies in \<open>[-32768, 32767]\<close>, so the 16-bit
  value stored is that value and no wrap-around occurs; a sample outside \<open>[-1,1]\<close> is
  encoded as its clamped value; and the encoder, which has no error result, emits two
  bytes per sample.
\<close>

theorem float32ToBase64PCM16_clamps:
  "sint (pcm16_of_sample (Num x)) = js_trunc (scale_sample x)
   \<and> - 32768 \<le> js_trunc (scale_sample x) \<and> js_trunc (scale_sample x) \<le> 32767
   \<and> scale_sample x = scale_sample (clamp_unit x)
   \<and> pcm16_of_sample (Num x) = pcm16_of_sample (Num (clamp_unit x))
   \<and> float32ToBase64PCM16 btoa (map Num xs) =
       float32ToBase64PCM16 btoa (map (\<lambda>v. Num (clamp_unit v)) xs)
   \<and> length (int16_buffer_bytes (map pcm16_of_sample (map Num xs))) = 2 * length xs"
proof -
  have a: "sint (pcm16_of_sample (Num x)) = js_trunc (scale_sample x)"
    by (rule sint_pcm16_of_sample)
  have b: "- 32768 \<le> js_trunc (scale_sample x) \<and> js_trunc (scale_sample x) \<le> 32767"
    using scale_sample_range [of x] js_trunc_range [of "scale_sample x"] by simp
  have c: "\<And>v. pcm16_of_sample (Num v) = pcm16_of_sample (Num (clamp_unit v))"
    by (simp add: scale_sample_clamp)
  have "map pcm16_of_sample (map Num xs) = map pcm16_of_sample (map (\<lambda>v. Num (clamp_unit v)) xs)"
    using c by (simp del: pcm16_of_sample.simps)
  then have d: "float32ToBase64PCM16 btoa (map Num xs) =
       float32ToBase64PCM16 btoa (map (\<lambda>v. Num (clamp_unit v)) xs)"
    by (simp only: float32ToBase64PCM16_def)
  have e: "length (int16_buffer_bytes (map pcm16_of_sample (map Num xs))) = 2 * length xs"
    by (simp add: length_int16_buffer_bytes)
  from a b scale_sample_clamp [of x, symmetric] c [of x] d e show ?thesis by blast
qed

theorem float32ToBase64PCM16_clamps_witness:
  "sint (pcm16_of_sample (Num (3 / 2))) = 32767
   \<and> sint (pcm16_of_sample (Num (- 5))) = - 32768
   \<and> pcm16_of_sample (Num (3 / 2)) = pcm16_of_sample (Num 1)"
proof -
  have c1: "clamp_unit (3 / 2) = 1" by (simp add: clamp_unit_def)
  have c2: "clamp_unit (- 5) = - 1" by (simp add: clamp_unit_def)
  have s1: "js_trunc (scale_sample (3 / 2)) = 32767"
    by (simp add: scale_sample_def c1 js_trunc_def)
  have s2: "js_trunc (scale_sample (- 5)) = - 32768"
    by (simp add: scale_sample_def c2 js_trunc_def)
  note t1 = float32ToBase64PCM16_clamps [of "3 / 2" undefined "[]"]
  note t2 = float32ToBase64PCM16_clamps [of "- 5" undefined "[]"]
  have a: "sint (pcm16_of_sample (Num (3 / 2))) = 32767"
    unfolding t1 [THEN conjunct1] by (rule s1)
  have b: "sint (pcm16_of_sample (Num (- 5))) = - 32768"
    unfolding t2 [THEN conjunct1] by (rule s2)
  have "pcm16_of_sample (Num (3 / 2)) = pcm16_of_sample (Num (clamp_unit (3 / 2)))"
    by (rule t1 [THEN conjunct2, THEN conjunct2, THEN conjunct2, THEN conjunct2, THEN conjunct1])
  then have c: "pcm16_of_sample (Num (3 / 2)) = pcm16_of_sample (Num 1)"
    unfolding c1 .
  from a b c show ?thesis by (intro conjI)
qed

section \<open>Properties of the resampler\<close>

lemma round_half_even_error: "\<bar>rat_of_int (round_half_even x) - x\<bar> \<le> 1 / 2"
proof -
  define f where "f = rat_of_int \<lfloor>x\<rfloor>"
  have f1: "f \<le> x" unfolding f_def by (rule of_int_floor_le)
  have f2: "x < f + 1" unfolding f_def using floor_correct [of x] by simp
  consider "x - f < 1 / 2" | "1 / 2 < x - f" | "x - f = 1 / 2 \<and> even \<lfloor>x\<rfloor>"
    | "x - f = 1 / 2 \<and> odd \<lfloor>x\<rfloor>"
    by fastforce
  then show ?thesis
  proof cases
    case 1
    then have "round_half_even x = \<lfloor>x\<rfloor>" by (simp add: round_half_even_def Let_def f_def)
    then show ?thesis using 1 f1 by (simp add: f_def)
  next
    case 2
    then have "round_half_even x = \<lfloor>x\<rfloor> + 1" by (simp add: round_half_even_def Let_def f_def)
    then have "rat_of_int (round_half_even x) = f + 1" by (simp add: f_def)
    then show ?thesis using 2 f2 by simp
  next
    case 3
    then have "round_half_even x = \<lfloor>x\<rfloor>" by (simp add: round_half_even_def Let_def f_def)
    then have "rat_of_int (round_half_even x) = f" by (simp add: f_def)
    then show ?thesis using 3 by simp
  next
    case 4
    then have "round_half_even x = \<lfloor>x\<rfloor> + 1" by (simp add: round_half_even_def Let_def f_def)
    then have "rat_of_int (round_half_even x) = f + 1" by (simp add: f_def)
    then show ?thesis using 4 by simp
  qed
qed

lemma binary_exponent_bounds:
  assumes "0 < x"
  shows "2 powi (binary_exponent x) \<le> x" and "x < 2 powi (binary_exponent x + 1)"
proof -
  obtain p q where pq: "quotient_of x = (p, q)" by (cases "quotient_of x")
  have q: "0 < q" using quotient_of_denom_pos [OF pq] .
  have x: "x = rat_of_int p / rat_of_int q" using quotient_of_div [OF pq] .
  have p: "0 < p"
  proof (rule ccontr)
    assume "\<not> 0 < p"
    then have "rat_of_int p \<le> 0" by simp
    then have "x \<le> 0" unfolding x using q by (simp add: divide_nonpos_pos)
    then show False using assms by simp
  qed
  define bp where "bp = bitlen p"
  define bq where "bq = bitlen q"
  define k where "k = bp - bq"
  have bp1: "1 \<le> bp" using p bitlen_eq_zero_iff [of p] bitlen_nonneg [of p] unfolding bp_def by linarith
  have bq1: "1 \<le> bq" using q bitlen_eq_zero_iff [of q] bitlen_nonneg [of q] unfolding bq_def by linarith
  have pb: "2 ^ nat (bp - 1) \<le> p" "p < 2 ^ nat bp"
    using bitlen_bounds [OF p] unfolding bp_def by simp_all
  have qb: "2 ^ nat (bq - 1) \<le> q" "q < 2 ^ nat bq"
    using bitlen_bounds [OF q] unfolding bq_def by simp_all
  have pl: "(2::rat) powi (bp - 1) \<le> rat_of_int p"
  proof -
    have "rat_of_int (2 ^ nat (bp - 1)) \<le> rat_of_int p" using pb(1) by (simp only: of_int_le_iff)
    then show ?thesis using bp1 by (simp add: power_int_def)
  qed
  have pu: "rat_of_int p < 2 powi bp"
  proof -
    have "rat_of_int p < rat_of_int (2 ^ nat bp)" using pb(2) by (simp only: of_int_less_iff)
    then show ?thesis using bp1 by (simp add: power_int_def)
  qed
  have ql: "(2::rat) powi (bq - 1) \<le> rat_of_int q"
  proof -
    have "rat_of_int (2 ^ nat (bq - 1)) \<le> rat_of_int q" using qb(1) by (simp only: of_int_le_iff)
    then show ?thesis using bq1 by (simp add: power_int_def)
  qed
  have qu: "rat_of_int q < 2 powi bq"
  proof -
    have "rat_of_int q < rat_of_int (2 ^ nat bq)" using qb(2) by (simp only: of_int_less_iff)
    then show ?thesis using bq1 by (simp add: power_int_def)
  qed
  have qpos: "0 < rat_of_int q" using q by simp
  have lower: "(2::rat) powi (k - 1) \<le> x"
  proof -
    have "(2::rat) powi (k - 1) = 2 powi (bp - 1) / 2 powi bq"
      unfolding k_def by (simp add: power_int_diff)
    also have "\<dots> \<le> rat_of_int p / 2 powi bq"
      using pl by (intro divide_right_mono) simp_all
    also have "\<dots> \<le> rat_of_int p / rat_of_int q"
      using qu qpos p by (intro divide_left_mono) (simp_all add: less_imp_le)
    finally show ?thesis unfolding x .
  qed
  have upper: "x < (2::rat) powi (k + 1)"
  proof -
    have "x < 2 powi bp / rat_of_int q"
      unfolding x using pu qpos by (intro divide_strict_right_mono)
    also have "\<dots> \<le> 2 powi bp / 2 powi (bq - 1)"
      using ql qpos by (intro divide_left_mono) simp_all
    also have "\<dots> = 2 powi (bp - (bq - 1))"
      by (simp add: power_int_diff)
    also have "bp - (bq - 1) = k + 1"
      unfolding k_def by simp
    finally show ?thesis .
  qed
  have ax: "\<bar>x\<bar> = x" using assms by simp
  have be: "binary_exponent x = (if 2 powi k \<le> x then k else k - 1)"
    unfolding binary_exponent_def ax pq k_def bp_def bq_def by (simp add: Let_def)
  show "2 powi (binary_exponent x) \<le> x"
    unfolding be using lower by simp
  show "x < 2 powi (binary_exponent x + 1)"
    unfolding be using upper by (simp add: not_le)
qed


lemma fl_round_error:
  assumes x: "0 < x" and normal: "2 powi emin \<le> x"
  shows "\<bar>fl_round p emin x - x\<bar> \<le> x * 2 powi (- int p)"
proof -
  define e where "e = binary_exponent x"
  have e1: "2 powi e \<le> x" and e2: "x < 2 powi (e + 1)"
    unfolding e_def using binary_exponent_bounds [OF x] by simp_all
  have "emin \<le> e"
  proof (rule ccontr)
    assume "\<not> emin \<le> e"
    then have "e + 1 \<le> emin" by simp
    then have "(2::rat) powi (e + 1) \<le> 2 powi emin"
      by (intro power_int_increasing) simp_all
    then show False using normal e2 by simp
  qed
  then have m: "max (binary_exponent x) emin = e" unfolding e_def by simp
  define ulp where "ulp = (2::rat) powi (e - int p + 1)"
  have ulp: "0 < ulp" unfolding ulp_def by simp
  have fl: "fl_round p emin x = rat_of_int (round_half_even (x / ulp)) * ulp"
    using x unfolding fl_round_def m ulp_def by (simp add: Let_def)
  have "fl_round p emin x - x = (rat_of_int (round_half_even (x / ulp)) - x / ulp) * ulp"
    unfolding fl using ulp by (simp add: field_simps)
  then have "\<bar>fl_round p emin x - x\<bar> = \<bar>rat_of_int (round_half_even (x / ulp)) - x / ulp\<bar> * ulp"
    using ulp by (simp add: abs_mult)
  also have "\<dots> \<le> (1 / 2) * ulp"
    using round_half_even_error [of "x / ulp"] ulp by (intro mult_right_mono) simp_all
  also have "(1 / 2) * ulp = 2 powi e * 2 powi (- int p)"
  proof -
    have "ulp = 2 powi (e + (- int p) + 1)" unfolding ulp_def by (simp add: algebra_simps)
    also have "\<dots> = 2 powi (e + (- int p)) * 2" by (simp add: power_int_add_1)
    also have "\<dots> = 2 powi e * 2 powi (- int p) * 2"
      using power_int_add [of "2::rat" e "- int p"] by simp
    finally show ?thesis by simp
  qed
  also have "\<dots> \<le> x * 2 powi (- int p)"
    using e1 by (intro mult_right_mono) simp_all
  finally show ?thesis .
qed

lemma fl64_error:
  assumes "0 < x" "2 powi (- 1022) \<le> x"
  shows "\<bar>fl64 x - x\<bar> \<le> x / 2 ^ 53"
proof -
  have "\<bar>fl64 x - x\<bar> \<le> x * 2 powi (- int 53)"
    unfolding fl64_def by (rule fl_round_error [OF assms])
  also have "(2::rat) powi (- int 53) = 1 / 2 ^ 53"
    by (simp add: power_int_minus_divide)
  finally show ?thesis by simp
qed

lemma fl64_zero: "fl64 0 = 0"
  by (simp add: fl64_def fl_round_def)

lemma resample_length:
  assumes "0 < a" "0 < b" "a \<noteq> b"
  shows "\<exists>out. resample xs a b = Inr out
     \<and> length out = nat \<lfloor>fl64 (of_nat (length xs) / fl64 (of_nat a / of_nat b))\<rfloor>"
  using assms by (simp add: resample_def Let_def)

lemma resample_same_rate: "resample xs a a = Inr xs"
  by (simp add: resample_def)

lemma quotient_240_at_24000_44100:
  "nat \<lfloor>fl64 (rat_of_nat (length (replicate 240 (Num 0)))
      / fl64 (rat_of_nat 24000 / rat_of_nat 44100))\<rfloor> = 440"
proof -
  have "nat \<lfloor>fl64 (240 / fl64 (24000 / 44100))\<rfloor> = 440"
    by code_simp
  then show ?thesis
    by (simp only: length_replicate of_nat_numeral)
qed

text \<open>
  C8, as stated, fails: 240 samples resampled from 24000 Hz to 44100 Hz (10 ms of inbound
  audio played on a 44.1 kHz device) give 440 output samples, while
  \<open>floor(240 * 44100 / 24000)\<close> is 441. In double precision \<open>24000/44100\<close> is rounded
  and \<open>240\<close> divided by it is just below 441.
\<close>

theorem resample_length_counterexample:
  "map_sum id length (resample (replicate 240 (Num 0)) 24000 44100) = Inr 440
   \<and> (240 * 44100) div 24000 = (441::nat)"
proof -
  have "\<exists>out. resample (replicate 240 (Num 0)) 24000 44100 = Inr out
     \<and> length out = nat \<lfloor>fl64 (rat_of_nat (length (replicate 240 (Num 0)))
          / fl64 (rat_of_nat 24000 / rat_of_nat 44100))\<rfloor>"
    by (rule resample_length) simp_all
  then obtain out where out: "resample (replicate 240 (Num 0)) 24000 44100 = Inr out"
      "length out = nat \<lfloor>fl64 (rat_of_nat (length (replicate 240 (Num 0)))
          / fl64 (rat_of_nat 24000 / rat_of_nat 44100))\<rfloor>"
    by blast
  have l: "length out = 440" unfolding out(2) by (rule quotient_240_at_24000_44100)
  have a: "map_sum id length (resample (replicate 240 (Num 0)) 24000 44100) = Inr 440"
    unfolding out(1) map_sum.simps l by simp
  have b: "(240 * 44100) div 24000 = (441::nat)" by simp
  from a b show ?thesis by (rule conjI)
qed

lemma floor_near_quotient:
  fixes m a :: nat and q :: rat
  assumes a: "0 < a"
    and lo: "of_nat m / of_nat a - 1 / of_nat a < q"
    and hi: "q < of_nat m / of_nat a + 1 / of_nat a"
  shows "\<lfloor>q\<rfloor> = int (m div a) \<or> (a dvd m \<and> \<lfloor>q\<rfloor> = int (m div a) - 1)"
proof -
  define k where "k = m div a"
  define r where "r = m mod a"
  have m: "m = a * k + r" unfolding k_def r_def by simp
  have r: "r < a" unfolding r_def using a by simp
  have ap: "0 < rat_of_nat a" using a by simp
  have t: "rat_of_nat m / rat_of_nat a = rat_of_nat k + rat_of_nat r / rat_of_nat a"
    unfolding m using ap by (simp add: field_simps)
  have "rat_of_nat r + 1 \<le> rat_of_nat a"
    using r by (metis Suc_leI of_nat_Suc of_nat_le_iff add.commute)
  then have "(rat_of_nat r + 1) / rat_of_nat a \<le> 1"
    using ap by (simp add: field_simps)
  then have "rat_of_nat r / rat_of_nat a + 1 / rat_of_nat a \<le> 1"
    by (simp add: add_divide_distrib)
  then have "q < rat_of_nat k + 1" using hi unfolding t by linarith
  then have "q < rat_of_int (int k + 1)" by simp
  then have up: "\<lfloor>q\<rfloor> < int k + 1" by (simp only: floor_less_iff)
  have rn: "0 \<le> rat_of_nat r / rat_of_nat a" using ap by simp
  have "1 / rat_of_nat a \<le> 1" using a ap by (simp add: field_simps)
  then have "rat_of_nat k - 1 < q" using lo rn unfolding t by linarith
  then have "rat_of_int (int k - 1) \<le> q" by simp
  then have low: "int k - 1 \<le> \<lfloor>q\<rfloor>" by (simp only: le_floor_iff)
  show ?thesis
  proof (cases "r = 0")
    case True
    then have "a dvd m" unfolding r_def by (simp add: dvd_eq_mod_eq_0)
    then show ?thesis using up low unfolding k_def by linarith
  next
    case False
    then have "1 \<le> rat_of_nat r" by (metis One_nat_def Suc_leI neq0_conv of_nat_1 of_nat_le_iff)
    then have "1 / rat_of_nat a \<le> rat_of_nat r / rat_of_nat a"
      using ap by (intro divide_right_mono) simp_all
    then have "rat_of_nat k < q" using lo unfolding t by linarith
    then have "rat_of_int (int k) \<le> q" by simp
    then have "int k \<le> \<lfloor>q\<rfloor>" by (simp only: le_floor_iff)
    then show ?thesis using up unfolding k_def by linarith
  qed
qed

lemma resample_quotient_bounds:
  fixes a b n :: nat
  assumes a: "0 < a" and b: "0 < b"
    and alim: "a < 2 ^ 32" and blim: "b < 2 ^ 32"
    and nlim: "n * b < 2 ^ 51"
  defines "q \<equiv> fl64 (rat_of_nat n / fl64 (rat_of_nat a / rat_of_nat b))"
  shows "rat_of_nat (n * b) / rat_of_nat a - 1 / rat_of_nat a < q"
    and "q < rat_of_nat (n * b) / rat_of_nat a + 1 / rat_of_nat a"
    and "0 \<le> q"
proof -
  define eps :: rat where "eps = 1 / 2 ^ 53"
  define rho where "rho = rat_of_nat a / rat_of_nat b"
  define r where "r = fl64 rho"
  define t where "t = rat_of_nat (n * b) / rat_of_nat a"
  have ap: "0 < rat_of_nat a" and bp: "0 < rat_of_nat b" using a b by simp_all
  have a1: "1 \<le> rat_of_nat a" using a by (metis One_nat_def Suc_leI of_nat_1 of_nat_le_iff)
  have b1: "1 \<le> rat_of_nat b" using b by (metis One_nat_def Suc_leI of_nat_1 of_nat_le_iff)
  have al: "rat_of_nat a < 2 ^ 32"
    using alim by (metis of_nat_less_iff of_nat_numeral of_nat_power)
  have bl: "rat_of_nat b < 2 ^ 32"
    using blim by (metis of_nat_less_iff of_nat_numeral of_nat_power)
  have rho: "0 < rho" unfolding rho_def using ap bp by simp
  have rho_lo: "1 / 2 ^ 32 \<le> rho"
  proof -
    have "1 / 2 ^ 32 \<le> 1 / rat_of_nat b"
      using bl bp by (intro divide_left_mono) simp_all
    also have "\<dots> \<le> rat_of_nat a / rat_of_nat b"
      using a1 bp by (intro divide_right_mono) simp_all
    finally show ?thesis unfolding rho_def .
  qed
  have rho_hi: "rho \<le> 2 ^ 32"
  proof -
    have "rat_of_nat a / rat_of_nat b \<le> rat_of_nat a / 1"
      using b1 ap by (intro divide_left_mono) simp_all
    then show ?thesis unfolding rho_def using al by simp
  qed
  have "(2::rat) powi (- 1022) \<le> 1 / 2 ^ 32"
    by (simp add: power_int_minus_divide)
  then have "(2::rat) powi (- 1022) \<le> rho" using rho_lo by simp
  then have "\<bar>r - rho\<bar> \<le> rho / 2 ^ 53" unfolding r_def by (rule fl64_error [OF rho])
  then have r_err: "\<bar>r - rho\<bar> \<le> rho * eps" unfolding eps_def by simp
  have d1: "\<And>u::rat. u * (1 - eps) = u - u * eps" by (simp add: algebra_simps)
  have d2: "\<And>u::rat. u * (1 + eps) = u + u * eps" by (simp add: algebra_simps)
  have r_lo: "rho * (1 - eps) \<le> r" unfolding d1 using r_err by linarith
  have r_hi: "r \<le> rho * (1 + eps)" unfolding d2 using r_err by linarith
  have e1: "0 < 1 - eps" and e2: "0 < 1 + eps" unfolding eps_def by simp_all
  have rp: "0 < r" using r_lo rho e1 by (meson less_le_trans mult_pos_pos)
  have tn: "0 \<le> t" unfolding t_def using ap by simp
  have t_rho: "t = rat_of_nat n / rho"
    unfolding t_def rho_def using ap bp by (simp add: field_simps)
  have tlim: "t * (4 * eps) < 1 / rat_of_nat a"
  proof -
    have "rat_of_nat (n * b) < 2 ^ 51"
      using nlim by (metis of_nat_less_iff of_nat_numeral of_nat_power)
    then have "rat_of_nat (n * b) * (4 * eps) < 1" unfolding eps_def by simp
    then have "rat_of_nat (n * b) * (4 * eps) / rat_of_nat a < 1 / rat_of_nat a"
      using ap by (intro divide_strict_right_mono)
    then show ?thesis unfolding t_def by (simp add: field_simps)
  qed
  show "rat_of_nat (n * b) / rat_of_nat a - 1 / rat_of_nat a < q"
    and "q < rat_of_nat (n * b) / rat_of_nat a + 1 / rat_of_nat a"
    and "0 \<le> q"
  proof -
    have both: "t - 1 / rat_of_nat a < q \<and> q < t + 1 / rat_of_nat a \<and> 0 \<le> q"
    proof (cases "n = 0")
      case True
      then have "q = 0" unfolding q_def by (simp add: fl64_zero)
      moreover have "t = 0" using True unfolding t_def by simp
      ultimately show ?thesis using ap by simp
    next
      case False
      then have n1: "1 \<le> rat_of_nat n"
        by (metis One_nat_def Suc_leI neq0_conv of_nat_1 of_nat_le_iff)
      define q0 where "q0 = rat_of_nat n / r"
      have q0_hi: "q0 \<le> t / (1 - eps)"
      proof -
        have "rat_of_nat n / r \<le> rat_of_nat n / (rho * (1 - eps))"
          using r_lo rho e1 n1 by (intro divide_left_mono) (simp_all add: rp)
        then show ?thesis unfolding q0_def t_rho by simp
      qed
      have q0_lo: "t / (1 + eps) \<le> q0"
      proof -
        have "rat_of_nat n / (rho * (1 + eps)) \<le> rat_of_nat n / r"
          using r_hi rho e2 n1 rp by (intro divide_left_mono) simp_all
        then show ?thesis unfolding q0_def t_rho by simp
      qed
      have q0p: "0 < q0" unfolding q0_def using n1 rp by simp
      have "1 / (2 ^ 32 * (1 + eps)) \<le> 1 / r"
      proof -
        have "r \<le> 2 ^ 32 * (1 + eps)"
          using r_hi rho_hi e2 by (meson order_trans mult_right_mono less_imp_le)
        then show ?thesis using rp by (intro divide_left_mono) simp_all
      qed
      also have "1 / r \<le> q0"
        unfolding q0_def using n1 rp by (intro divide_right_mono) simp_all
      finally have "1 / (2 ^ 32 * (1 + eps)) \<le> q0" .
      moreover have "(2::rat) powi (- 1022) \<le> 1 / (2 ^ 32 * (1 + eps))"
        unfolding eps_def by (simp add: power_int_minus_divide)
      ultimately have "(2::rat) powi (- 1022) \<le> q0" by simp
      then have "\<bar>fl64 q0 - q0\<bar> \<le> q0 / 2 ^ 53" by (rule fl64_error [OF q0p])
      then have q_err: "\<bar>fl64 q0 - q0\<bar> \<le> q0 * eps" unfolding eps_def by simp
      have qq: "q = fl64 q0" unfolding q_def q0_def r_def rho_def ..
      have q_lo: "q0 * (1 - eps) \<le> q" unfolding d1 qq using q_err by linarith
      have q_hi: "q \<le> q0 * (1 + eps)" unfolding d2 qq using q_err by linarith
      have c_hi: "(1 + eps) / (1 - eps) \<le> 1 + 4 * eps"
        unfolding eps_def by simp
      have c_lo: "1 - 4 * eps \<le> (1 - eps) / (1 + eps)"
        unfolding eps_def by simp
      have "q \<le> t / (1 - eps) * (1 + eps)"
        using q_hi q0_hi e2 by (meson order_trans mult_right_mono less_imp_le)
      also have "t / (1 - eps) * (1 + eps) = t * ((1 + eps) / (1 - eps))" by simp
      also have "\<dots> \<le> t * (1 + 4 * eps)"
        using c_hi tn by (rule mult_left_mono)
      finally have up: "q \<le> t + t * (4 * eps)" by (simp add: algebra_simps)
      have "t * (1 - 4 * eps) \<le> t * ((1 - eps) / (1 + eps))"
        using c_lo tn by (rule mult_left_mono)
      also have "\<dots> = t / (1 + eps) * (1 - eps)" by simp
      also have "\<dots> \<le> q0 * (1 - eps)"
        using q0_lo e1 by (intro mult_right_mono) simp_all
      also have "\<dots> \<le> q" by (rule q_lo)
      finally have low: "t - t * (4 * eps) \<le> q" by (simp add: algebra_simps)
      have "0 \<le> q0 * (1 - eps)" using q0p e1 by simp
      then have "0 \<le> q" using q_lo by simp
      then show ?thesis using up low tlim by linarith
    qed
    show "rat_of_nat (n * b) / rat_of_nat a - 1 / rat_of_nat a < q"
      using both unfolding t_def by simp
    show "q < rat_of_nat (n * b) / rat_of_nat a + 1 / rat_of_nat a"
      using both unfolding t_def by simp
    show "0 \<le> q" using both by simp
  qed
qed

text \<open>
  C8, amended: for positive rates \<open>a \<noteq> b\<close> below \<open>2^32\<close> and an input with
  \<open>len * b < 2^51\<close>, the output length is \<open>floor(len * b / a)\<close>, except that it can be one
  less when \<open>len * b\<close> is an exact multiple of \<open>a\<close>: the length is the floor of the
  double precision quotient \<open>len / (a / b)\<close>, which can fall just below that integer. When
  \<open>a = b\<close> the output is the input unchanged, and an empty input yields an empty output.
\<close>

theorem resample_output_length:
  assumes a: "0 < a" and b: "0 < b"
    and alim: "a < 2 ^ 32" and blim: "b < 2 ^ 32"
    and nlim: "length xs * b < 2 ^ 51"
  shows "\<exists>out. resample xs a b = Inr out
     \<and> (a = b \<longrightarrow> out = xs)
     \<and> (a \<noteq> b \<longrightarrow>
          length out = length xs * b div a
          \<or> (a dvd length xs * b \<and> Suc (length out) = length xs * b div a))
     \<and> (xs = [] \<longrightarrow> out = [])"
proof (cases "a = b")
  case True
  then have "resample xs a b = Inr xs" by (simp add: resample_same_rate)
  then show ?thesis using True by simp
next
  case False
  define q where "q = fl64 (rat_of_nat (length xs) / fl64 (rat_of_nat a / rat_of_nat b))"
  obtain out where out: "resample xs a b = Inr out" "length out = nat \<lfloor>q\<rfloor>"
    using resample_length [OF a b False, of xs] unfolding q_def by blast
  have lo: "rat_of_nat (length xs * b) / rat_of_nat a - 1 / rat_of_nat a < q"
    and hi: "q < rat_of_nat (length xs * b) / rat_of_nat a + 1 / rat_of_nat a"
    and nn: "0 \<le> q"
    unfolding q_def by (rule resample_quotient_bounds [OF a b alim blim nlim])+
  have fl: "\<lfloor>q\<rfloor> = int (length xs * b div a)
      \<or> (a dvd length xs * b \<and> \<lfloor>q\<rfloor> = int (length xs * b div a) - 1)"
    by (rule floor_near_quotient [OF a lo hi])
  have fn: "0 \<le> \<lfloor>q\<rfloor>" using nn by simp
  have len: "length out = length xs * b div a
          \<or> (a dvd length xs * b \<and> Suc (length out) = length xs * b div a)"
    using fl fn unfolding out(2) by auto
  have empty: "xs = [] \<longrightarrow> out = []"
  proof
    assume "xs = []"
    then have "length xs * b div a = 0" by simp
    then have "length out = 0" using len by auto
    then show "out = []" by simp
  qed
  show ?thesis using out(1) len empty False by blast
qed

theorem resample_output_length_witness:
  "\<exists>out. resample (replicate 240 (Num 0)) 24000 44100 = Inr out
     \<and> (length out = 441 \<or> Suc (length out) = 441)"
proof -
  have a: "(0::nat) < 24000" and b: "(0::nat) < 44100" by simp_all
  have alim: "(24000::nat) < 2 ^ 32" and blim: "(44100::nat) < 2 ^ 32" by simp_all
  have nlim: "length (replicate 240 (Num 0)) * 44100 < 2 ^ 51" by simp
  have ne: "(24000::nat) \<noteq> 44100" by simp
  have d: "length (replicate 240 (Num 0)) * 44100 div 24000 = 441" by simp
  obtain out where out: "resample (replicate 240 (Num 0)) 24000 44100 = Inr out"
      "24000 \<noteq> (44100::nat) \<longrightarrow>
          length out = length (replicate 240 (Num 0)) * 44100 div 24000
          \<or> (24000 dvd length (replicate 240 (Num 0)) * 44100
              \<and> Suc (length out) = length (replicate 240 (Num 0)) * 44100 div 24000)"
    using resample_output_length [OF a b alim blim nlim] by blast
  have "length out = 441 \<or> Suc (length out) = 441"
    using out(2) ne unfolding d by blast
  then show ?thesis using out(1) by (intro exI [of _ out] conjI)
qed

end
